theory Spec2Isabelle
  imports Main
begin

section \<open>Data model\<close>

text \<open>
  A node of the tree, as \<^verbatim>\<open>struct radix_trie\<close> in radix.h: the next sibling, the head of the
  child list and the substring. A NULL pointer is \<open>Null\<close>. The list \<open>substr\<close> holds the
  bytes \<^verbatim>\<open>substr[0]\<close> to \<^verbatim>\<open>substr[len - 1]\<close> that the field \<^verbatim>\<open>len\<close> covers, so \<^verbatim>\<open>len\<close> is the
  length of the list.
\<close>

datatype radix_trie =
  Null
| Node (sib: radix_trie) (child: radix_trie) (substr: "char list")

abbreviation nul :: char where
  "nul \<equiv> CHR 0x00"

text \<open>
  The field \<^verbatim>\<open>len\<close> is an \<^verbatim>\<open>unsigned\<close>, of 32 bits. A length that the source computes in
  \<^verbatim>\<open>size_t\<close> or as a sum of two fields and stores in \<^verbatim>\<open>len\<close> is reduced modulo \<open>2^32\<close>;
  \<^verbatim>\<open>radix_trie_make_suffix\<close> and \<^verbatim>\<open>radix_trie_fuse\<close> are the two functions that do so.
  \<^verbatim>\<open>size_t\<close> is taken to be 64 bits wide, wide enough for the length of every string in
  memory and for every offset into the buffer of the iteration. A node whose field is
  zero (the node made for a string of \<open>2^32 - 1\<close> bytes) has the empty list; the source
  reads bytes of such a node that lie past its length, and here those reads are \<open>[] ! 0\<close>,
  of which nothing is known.
\<close>

definition as_unsigned :: "nat \<Rightarrow> nat" where
  "as_unsigned n = n mod 2 ^ 32"

text \<open>The same reduction computed on \<open>int\<close>, whose numerals are binary: the equation used to
  evaluate \<open>as_unsigned\<close>.\<close>

lemma as_unsigned_code [code]: "as_unsigned n = nat (int n mod 2 ^ 32)"
  by (simp add: as_unsigned_def nat_mod_distrib)

text \<open>
  A C string argument is the list of its bytes before the terminator; reading it at its
  length gives the terminator, as \<^verbatim>\<open>str[strlen(str)]\<close> does. The source never reads a
  string past that index.
\<close>

definition str_at :: "char list \<Rightarrow> nat \<Rightarrow> char" where
  "str_at str i = (if i < length str then str ! i else nul)"

text \<open>
  The source compares bytes as values of the C type \<^verbatim>\<open>char\<close>, whose signedness the C
  implementation chooses. \<open>char_val sg c\<close> is the value of byte \<open>c\<close> after integer
  promotion: \<open>0..255\<close> where \<^verbatim>\<open>char\<close> is unsigned (\<open>sg = False\<close>), \<open>-128..127\<close> where it
  is signed (\<open>sg = True\<close>, as on x86 with gcc or clang).
\<close>

definition char_val :: "bool \<Rightarrow> char \<Rightarrow> int" where
  "char_val sg c = (if sg \<and> 128 \<le> (of_char c :: int) then of_char c - 256 else of_char c)"

text \<open>
  The outcomes of the successive requests to \<^verbatim>\<open>malloc\<close> and \<^verbatim>\<open>realloc\<close> during one
  call: \<open>True\<close> for a request that succeeds. Once the list is used up every request
  succeeds, so \<open>[]\<close> is a call with enough memory.
\<close>

type_synonym alloc = "bool list"

definition alloc_ok :: "alloc \<Rightarrow> bool" where
  "alloc_ok al = (case al of [] \<Rightarrow> True | b # _ \<Rightarrow> b)"

section \<open>Insertion\<close>

text \<open>\<^verbatim>\<open>radix_trie_diff\<close>: the loop over \<^verbatim>\<open>res\<close>, then the function.\<close>

function diff_loop :: "char list \<Rightarrow> char list \<Rightarrow> nat \<Rightarrow> nat" where
  "diff_loop ss str res =
     (if res < length ss \<and> ss ! res = str_at str res \<and> str_at str res \<noteq> nul
      then diff_loop ss str (Suc res) else res)"
  by pat_completeness auto
termination
  by (relation "measure (\<lambda>(ss, str, res). length ss - res)") auto

declare diff_loop.simps [simp del]

definition radix_trie_diff :: "radix_trie \<Rightarrow> char list \<Rightarrow> nat" where
  "radix_trie_diff node str = diff_loop (substr node) str 0"

text \<open>
  \<^verbatim>\<open>radix_trie_make_suffix\<close>: on success the node at \<^verbatim>\<open>*pos\<close> is the new node, whose sibling
  is the old \<^verbatim>\<open>*pos\<close>, and \<^verbatim>\<open>*suffix\<close> is NULL (\<open>None\<close>). \<^verbatim>\<open>strlen\<close> counts the bytes before
  the first terminator, \<^verbatim>\<open>strcpy\<close> copies them and the terminator, and the assignment
  \<^verbatim>\<open>node->len = len + 1\<close> narrows the \<^verbatim>\<open>size_t\<close> to \<^verbatim>\<open>unsigned\<close>: the node covers that many
  of the bytes copied.
\<close>

definition radix_trie_make_suffix ::
  "alloc \<Rightarrow> radix_trie \<Rightarrow> char list \<Rightarrow> int \<times> radix_trie \<times> char list option" where
  "radix_trie_make_suffix al pos suffix =
     (let len = length (takeWhile (\<lambda>c. c \<noteq> nul) suffix) in
      if \<not> alloc_ok al then (1, pos, Some suffix)
      else (0, Node pos Null (take (as_unsigned (len + 1))
                                (takeWhile (\<lambda>c. c \<noteq> nul) suffix @ [nul])), None))"

text \<open>
  \<^verbatim>\<open>radix_trie_split\<close>: one \<^verbatim>\<open>malloc\<close> for the prefix node, then one \<^verbatim>\<open>realloc\<close> that
  shrinks the old node; the old node keeps its contents whether or not that \<^verbatim>\<open>realloc\<close>
  succeeds. Returns the result, the node at \<^verbatim>\<open>*node\<close> and the outcomes still unused.
\<close>

definition radix_trie_split :: "alloc \<Rightarrow> radix_trie \<Rightarrow> nat \<Rightarrow> int \<times> radix_trie \<times> alloc" where
  "radix_trie_split al node diff =
     (if \<not> alloc_ok al then (1, node, tl al)
      else (0, Node (sib node) (Node Null (child node) (drop diff (substr node)))
                 (take diff (substr node)), tl (tl al)))"

text \<open>
  \<^verbatim>\<open>radix_trie_try_split\<close>. The result holds the node at the position \<^verbatim>\<open>**node\<close> had on
  entry, and the string \<^verbatim>\<open>*str\<close> (\<open>None\<close> for NULL). When the call returns zero with a
  string, the source has moved \<^verbatim>\<open>*node\<close> to the child field of that node.
\<close>

definition radix_trie_try_split ::
  "alloc \<Rightarrow> radix_trie \<Rightarrow> char list \<Rightarrow> int \<times> radix_trie \<times> char list option \<times> alloc" where
  "radix_trie_try_split al node str =
     (let diff = radix_trie_diff node str in
      if diff < length (substr node) then
        if substr node ! diff = str_at str diff then (0, node, None, al)
        else (case radix_trie_split al node diff of
                (r, node', al') \<Rightarrow>
                  if r \<noteq> 0 then (1, node', Some str, al')
                  else (0, node', Some (drop diff str), al'))
      else (0, node, Some (drop diff str), al))"

text \<open>
  \<^verbatim>\<open>radix_trie_lsfind\<close> walks a sibling list through a pointer to a pointer. The result is
  the nodes stepped over (child and substring of each, in order) and the tree the
  returned pointer refers to; \<open>relink\<close> is a store through that pointer.
\<close>

fun radix_trie_lsfind ::
  "bool \<Rightarrow> radix_trie \<Rightarrow> char \<Rightarrow> (radix_trie \<times> char list) list \<times> radix_trie" where
  "radix_trie_lsfind sg Null chr = ([], Null)"
| "radix_trie_lsfind sg (Node sb ch ss) chr =
     (if char_val sg (ss ! 0) < char_val sg chr
      then (case radix_trie_lsfind sg sb chr of (pre, pos) \<Rightarrow> ((ch, ss) # pre, pos))
      else ([], Node sb ch ss))"

fun relink :: "(radix_trie \<times> char list) list \<Rightarrow> radix_trie \<Rightarrow> radix_trie" where
  "relink [] t = t"
| "relink ((ch, ss) # pre) t = Node (relink pre t) ch ss"

lemma lsfind_relink: "radix_trie_lsfind sg t c = (pre, pos) \<Longrightarrow> relink pre pos = t"
  by (induction t arbitrary: pre pos) (auto split: if_splits prod.splits)

lemma lsfind_size: "radix_trie_lsfind sg t c = (pre, pos) \<Longrightarrow> size pos \<le> size t"
  by (induction t arbitrary: pre pos) (fastforce split: if_splits prod.splits)+

lemma lsfind_not_less:
  "radix_trie_lsfind sg t c = (pre, pos) \<Longrightarrow> pos \<noteq> Null \<Longrightarrow>
   \<not> char_val sg (substr pos ! 0) < char_val sg c"
  by (induction t arbitrary: pre pos) (auto split: if_splits prod.splits)

lemma char_val_mod: "char_val sg c mod 256 = of_char c"
  by (simp add: char_val_def)

lemma char_val_inj: "char_val sg a = char_val sg b \<longleftrightarrow> a = b"
proof
  assume "char_val sg a = char_val sg b"
  then have "char_val sg a mod 256 = char_val sg b mod 256" by simp
  then have "(of_char a :: int) = of_char b" by (simp only: char_val_mod)
  then show "a = b" by simp
qed simp

lemma diff_loop_ge: "res \<le> diff_loop ss str res"
proof (induction ss str res rule: diff_loop.induct)
  case (1 ss str res)
  show ?case
  proof (cases "res < length ss \<and> ss ! res = str_at str res \<and> str_at str res \<noteq> nul")
    case True
    with "1.IH" have "Suc res \<le> diff_loop ss str (Suc res)" by simp
    with True show ?thesis by (subst diff_loop.simps) simp
  next
    case False
    then show ?thesis by (subst diff_loop.simps) auto
  qed
qed

lemma diff_loop_le: "res \<le> length str \<Longrightarrow> diff_loop ss str res \<le> length str"
proof (induction ss str res rule: diff_loop.induct)
  case (1 ss str res)
  show ?case
  proof (cases "res < length ss \<and> ss ! res = str_at str res \<and> str_at str res \<noteq> nul")
    case True
    then have "res < length str" using "1.prems" by (auto simp: str_at_def split: if_splits)
    then show ?thesis using True "1.IH" by (subst diff_loop.simps) simp
  next
    case False
    then show ?thesis using "1.prems" by (subst diff_loop.simps) auto
  qed
qed

lemma diff_loop_0: "ss \<noteq> [] \<Longrightarrow> ss ! 0 = str_at str 0 \<Longrightarrow> diff_loop ss str 0 = 0 \<Longrightarrow>
    str_at str 0 = nul"
  by (subst (asm) diff_loop.simps) (use diff_loop_ge [of "Suc 0" ss str] in \<open>auto split: if_splits\<close>)

lemma try_split_measure:
  assumes "radix_trie_try_split al pos str = (0, pos', Some s', al')"
    and "substr pos ! 0 = str_at str 0"
  shows "length s' < length str \<or> (s' = str \<and> pos' = pos)"
proof -
  let ?d = "radix_trie_diff pos str"
  have le: "?d \<le> length str"
    unfolding radix_trie_diff_def by (rule diff_loop_le) simp
  show ?thesis
  proof (cases "?d = 0")
    case True
    then show ?thesis using assms
      by (auto simp: radix_trie_try_split_def radix_trie_split_def Let_def split: if_splits)
  next
    case False
    then have "length (drop ?d str) < length str" using le by simp
    then show ?thesis using assms
      by (auto simp: radix_trie_try_split_def radix_trie_split_def Let_def split: if_splits)
  qed
qed

text \<open>
  \<^verbatim>\<open>radix_trie_insert\<close>. Each round of the \<^verbatim>\<open>do\<close> loop is one call: it finds the position
  in the sibling list; \<^verbatim>\<open>radix_trie_make_suffix\<close> ends the loop (it fails, or it sets
  \<^verbatim>\<open>str\<close> to NULL); after \<^verbatim>\<open>radix_trie_try_split\<close> the loop goes on in the child list of the
  node at the position, and what it stores there is stored in that node.
\<close>

function radix_trie_insert :: "bool \<Rightarrow> alloc \<Rightarrow> radix_trie \<Rightarrow> char list \<Rightarrow> int \<times> radix_trie" where
  "radix_trie_insert sg al root str =
     (case radix_trie_lsfind sg root (str_at str 0) of
        (pre, pos) \<Rightarrow>
          if pos = Null \<or> char_val sg (substr pos ! 0) > char_val sg (str_at str 0) then
            (case radix_trie_make_suffix al pos str of
               (res, pos', str') \<Rightarrow> (res, relink pre pos'))
          else
            (case radix_trie_try_split al pos str of
               (res, pos', str', al') \<Rightarrow>
                 if str' = None \<or> res \<noteq> 0 then (res, relink pre pos')
                 else (case radix_trie_insert sg al' (child pos') (the str') of
                         (res', ch') \<Rightarrow> (res', relink pre (Node (sib pos') ch' (substr pos'))))))"
  by pat_completeness auto
termination
proof (relation "measures [\<lambda>(sg, al, t, s). length s, \<lambda>(sg, al, t, s). size t]", goal_cases)
  case 1
  show ?case by simp
next
  case (2 sg al root str pre pos res rest pos' rest' str' al')
  from 2 have ts: "radix_trie_try_split al pos str = (0, pos', Some (the str'), al')"
    by auto
  from 2 have nn: "pos \<noteq> Null"
    and ng: "\<not> char_val sg (str_at str 0) < char_val sg (substr pos ! 0)" by auto
  from lsfind_not_less [OF 2(1) [symmetric] nn] ng
  have "char_val sg (substr pos ! 0) = char_val sg (str_at str 0)" by simp
  then have eq: "substr pos ! 0 = str_at str 0" by (simp add: char_val_inj)
  from nn have "size (child pos) < size pos" by (cases pos) auto
  with lsfind_size [OF 2(1) [symmetric]] have "size (child pos) < size root" by simp
  with try_split_measure [OF ts eq] show ?case by auto
qed

declare radix_trie_insert.simps [simp del]

section \<open>Lookup and prefix match\<close>

lemma lsfind_child_size:
  "snd (radix_trie_lsfind sg t c) = Node sb ch ss \<Longrightarrow> size ch < size t"
proof -
  assume a: "snd (radix_trie_lsfind sg t c) = Node sb ch ss"
  obtain pre pos where p: "radix_trie_lsfind sg t c = (pre, pos)"
    by (cases "radix_trie_lsfind sg t c")
  with a have "pos = Node sb ch ss" by simp
  with lsfind_size [OF p] show ?thesis by simp
qed

text \<open>
  \<^verbatim>\<open>radix_trie_lookup\<close>. The source starts from a fake node whose child list is the tree, so
  that each round of its loop steps into the child list of the last node; the first round
  looks at the tree itself.
\<close>

function radix_trie_lookup :: "bool \<Rightarrow> radix_trie \<Rightarrow> char list \<Rightarrow> bool" where
  "radix_trie_lookup sg root str =
     (case snd (radix_trie_lsfind sg root (str_at str 0)) of
        Null \<Rightarrow> False
      | Node sb ch ss \<Rightarrow>
          (let diff = radix_trie_diff (Node sb ch ss) str in
           if diff = length ss then radix_trie_lookup sg ch (drop diff str)
           else ss ! diff = str_at str diff))"
  by pat_completeness auto
termination
proof (relation "measure (\<lambda>(sg, t, s). size t)", goal_cases)
  case 1
  show ?case by simp
next
  case (2 sg root str sb ch ss)
  from lsfind_child_size [OF 2(1)] show ?case by simp
qed

declare radix_trie_lookup.simps [simp del]

text \<open>\<^verbatim>\<open>radix_trie_match\<close>.\<close>

function radix_trie_match :: "bool \<Rightarrow> radix_trie \<Rightarrow> char list \<Rightarrow> bool" where
  "radix_trie_match sg root prefix =
     (case snd (radix_trie_lsfind sg root (str_at prefix 0)) of
        Null \<Rightarrow> False
      | Node sb ch ss \<Rightarrow>
          (let diff = radix_trie_diff (Node sb ch ss) prefix in
           if diff < length ss then str_at prefix diff = nul
           else if str_at (drop diff prefix) 0 \<noteq> nul
                then radix_trie_match sg ch (drop diff prefix)
                else True))"
  by pat_completeness auto
termination
proof (relation "measure (\<lambda>(sg, t, s). size t)", goal_cases)
  case 1
  show ?case by simp
next
  case (2 sg root str sb ch ss)
  from lsfind_child_size [OF 2(1)] show ?case by simp
qed

declare radix_trie_match.simps [simp del]

section \<open>Deletion\<close>

text \<open>
  \<^verbatim>\<open>radix_trie_fuse\<close>: the result and the node at \<^verbatim>\<open>*parent\<close>. It makes one request to
  \<^verbatim>\<open>realloc\<close>, and only when the parent has exactly one child. \<^verbatim>\<open>newlen\<close> is an
  \<^verbatim>\<open>unsigned\<close>, and so is the field that \<^verbatim>\<open>next->len += child->len\<close> updates: the sum of the
  two lengths wraps at \<open>2^32\<close>, and the fused node covers that many of the bytes of the two
  substrings. (When the sum wraps, the \<^verbatim>\<open>memcpy\<close> of the source writes past the block it
  has reallocated.)
\<close>

definition radix_trie_fuse :: "alloc \<Rightarrow> radix_trie \<Rightarrow> int \<times> radix_trie" where
  "radix_trie_fuse al parent =
     (if parent = Null \<or> child parent = Null \<or> sib (child parent) \<noteq> Null then (0, parent)
      else
        (let newlen = as_unsigned (length (substr parent) + length (substr (child parent))) in
         if \<not> alloc_ok al then (- 1, parent)
         else (0, Node (sib parent) (child (child parent))
                    (take newlen (substr parent @ substr (child parent))))))"

text \<open>
  The loop of \<^verbatim>\<open>radix_trie_delete\<close>, one call for each sibling list it walks. The source
  keeps in \<^verbatim>\<open>parent\<close> the position of the node whose child list it is walking, and after
  unlinking the matched node it calls \<^verbatim>\<open>radix_trie_fuse\<close> on that position. Here the call
  that walks a child list reports \<open>Unlinked\<close> when it removed a node from that list, and
  the call one level up, which holds the parent, fuses it and reports \<open>Finished\<close> with
  the result of the fuse; \<open>Unmatched\<close> is a \<^verbatim>\<open>break\<close> with nothing removed.
\<close>

datatype delete_state = Unmatched | Unlinked | Finished int

function radix_trie_delete_loop ::
  "bool \<Rightarrow> alloc \<Rightarrow> radix_trie \<Rightarrow> char list \<Rightarrow> delete_state \<times> radix_trie" where
  "radix_trie_delete_loop sg al root str =
     (case radix_trie_lsfind sg root (str_at str 0) of
        (pre, pos) \<Rightarrow>
          (case pos of
             Null \<Rightarrow> (Unmatched, root)
           | Node sb ch ss \<Rightarrow>
               (let diff = radix_trie_diff (Node sb ch ss) str in
                if diff < length ss then
                  if ss ! diff = str_at str diff then (Unlinked, relink pre sb)
                  else (Unmatched, root)
                else
                  (case radix_trie_delete_loop sg al ch (drop diff str) of
                     (Unlinked, ch') \<Rightarrow>
                       (case radix_trie_fuse al (Node sb ch' ss) of
                          (res, parent') \<Rightarrow> (Finished res, relink pre parent'))
                   | (st, ch') \<Rightarrow> (st, relink pre (Node sb ch' ss))))))"
  by pat_completeness auto
termination
proof (relation "measure (\<lambda>(sg, al, t, s). size t)", goal_cases)
  case 1
  show ?case by simp
next
  case (2 sg al root str pre pos sb ch ss)
  then have "snd (radix_trie_lsfind sg root (str_at str 0)) = Node sb ch ss"
    by (metis snd_conv)
  from lsfind_child_size [OF this] show ?case by simp
qed

declare radix_trie_delete_loop.simps [simp del]

text \<open>
  \<^verbatim>\<open>radix_trie_delete\<close>: \<^verbatim>\<open>res\<close> starts at zero and changes only where
  \<^verbatim>\<open>radix_trie_fuse\<close> is called. At the top level \<^verbatim>\<open>parent\<close> refers to a NULL pointer.
\<close>

definition radix_trie_delete :: "bool \<Rightarrow> alloc \<Rightarrow> radix_trie \<Rightarrow> char list \<Rightarrow> int \<times> radix_trie" where
  "radix_trie_delete sg al root str =
     (case radix_trie_delete_loop sg al root str of
        (Unmatched, root') \<Rightarrow> (0, root')
      | (Unlinked, root') \<Rightarrow> (fst (radix_trie_fuse al Null), root')
      | (Finished res, root') \<Rightarrow> (res, root'))"

section \<open>Iteration\<close>

text \<open>
  \<^verbatim>\<open>struct radix_iter\<close>, without the \<^verbatim>\<open>jmp_buf\<close>. The callback reads the C string at the
  start of the buffer and may change the data its closure points to: it is a function
  from that string and the data to its result and the new data. \<open>buf\<close> holds the bytes
  of the buffer.
\<close>

record 'd radix_iter =
  fn :: "char list \<Rightarrow> 'd \<Rightarrow> int \<times> 'd"
  data :: 'd
  buf :: "char list"
  len :: nat

text \<open>How a call ends: by returning, or by the \<^verbatim>\<open>longjmp\<close> to \<^verbatim>\<open>radix_trie_foreach\<close>.\<close>

datatype 'a control = Return 'a | Longjmp 'a

definition minzu :: "nat \<Rightarrow> nat \<Rightarrow> nat" where
  "minzu x y = (if x < y then x else y)"

text \<open>
  \<^verbatim>\<open>memcpy(&b[i], src, n)\<close> on a buffer held as a list. A copy that ran past the end of
  the buffer would make the list longer, so a buffer that keeps its length was written
  within its bounds.
\<close>

definition memcpy :: "char list \<Rightarrow> nat \<Rightarrow> char list \<Rightarrow> nat \<Rightarrow> char list" where
  "memcpy b i src n = take i b @ take n src @ drop (i + n) b"

text \<open>The C string a callback finds at the start of the buffer.\<close>

definition c_string :: "char list \<Rightarrow> char list" where
  "c_string b = takeWhile (\<lambda>c. c \<noteq> nul) b"

text \<open>\<^verbatim>\<open>radix_trie_iterate\<close>.\<close>

fun radix_trie_iterate :: "radix_trie \<Rightarrow> 'd radix_iter \<Rightarrow> nat \<Rightarrow> 'd radix_iter control" where
  "radix_trie_iterate Null iter i = Return iter"
| "radix_trie_iterate (Node sb ch ss) iter i =
     (let space = (if len iter > i then len iter - i else 0);
          n = minzu space (length ss);
          iter1 = iter\<lparr>buf := memcpy (buf iter) i ss n\<rparr>;
          visited =
            (if ss ! (length ss - 1) = nul then
               (let iter2 = iter1\<lparr>buf := (buf iter1)[len iter1 - 1 := nul]\<rparr> in
                case fn iter2 (c_string (buf iter2)) (data iter2) of
                  (stop, d) \<Rightarrow>
                    if stop \<noteq> 0 then Longjmp (iter2\<lparr>data := d\<rparr>)
                    else Return (iter2\<lparr>data := d\<rparr>))
             else Return iter1)
      in case visited of
           Longjmp it \<Rightarrow> Longjmp it
         | Return it \<Rightarrow>
             (case radix_trie_iterate ch it (i + length ss) of
                Longjmp it' \<Rightarrow> Longjmp it'
              | Return it' \<Rightarrow> radix_trie_iterate sb it' i))"

definition RADIX_FORBUFSZ :: nat where
  "RADIX_FORBUFSZ = 1024"

text \<open>
  \<^verbatim>\<open>radix_trie_foreach\<close>. The buffer argument is \<open>None\<close> for NULL; \<open>sbuf\<close> is what the
  array \<^verbatim>\<open>sbuf\<close> on the stack holds when the function is entered. The result is the value
  returned and the iteration context at the end, which holds the data the callbacks left
  and the final buffer.
\<close>

definition radix_trie_foreach ::
  "char list \<Rightarrow> radix_trie \<Rightarrow> (char list \<Rightarrow> 'd \<Rightarrow> int \<times> 'd) \<Rightarrow> 'd \<Rightarrow> char list option \<Rightarrow> nat
   \<Rightarrow> int \<times> 'd radix_iter" where
  "radix_trie_foreach sbuf root f d b n =
     (let iter = \<lparr>fn = f, data = d,
                  buf = (case b of Some u \<Rightarrow> u | None \<Rightarrow> sbuf),
                  len = (case b of Some u \<Rightarrow> n | None \<Rightarrow> RADIX_FORBUFSZ)\<rparr>
      in if len iter \<noteq> 0 then
           (case radix_trie_iterate root iter 0 of
              Longjmp it \<Rightarrow> (1, it)
            | Return it \<Rightarrow> (0, it))
         else (0, iter))"

section \<open>The set a tree holds, and the shape of a tree\<close>

text \<open>
  A node is terminal when the last byte of its substring is the terminator; this is the
  test \<^verbatim>\<open>!root->substr[root->len - 1]\<close> of \<^verbatim>\<open>radix_trie_iterate\<close>.
\<close>

definition terminal :: "char list \<Rightarrow> bool" where
  "terminal ss = (ss ! (length ss - 1) = nul)"

text \<open>
  The strings of a tree, each with its terminator, in the order \<^verbatim>\<open>radix_trie_iterate\<close>
  walks the nodes: the node itself if it is terminal, its child list, then its siblings.
  \<open>keys\<close> are the same strings without the terminator: the members of the set.
\<close>

fun strings :: "radix_trie \<Rightarrow> char list list" where
  "strings Null = []"
| "strings (Node sb ch ss) =
     (if terminal ss then [ss] else []) @ map ((@) ss) (strings ch) @ strings sb"

definition keys :: "radix_trie \<Rightarrow> char list list" where
  "keys t = map butlast (strings t)"

text \<open>
  The invariants of section 3 of the specification that every operation relies on:
  a substring is never empty, the terminator occurs only as its last byte, a terminal
  node has no children, and the first bytes of a sibling list increase strictly (compared
  as the source compares them).
\<close>

fun sib_ok :: "bool \<Rightarrow> char list \<Rightarrow> radix_trie \<Rightarrow> bool" where
  "sib_ok sg ss Null = True"
| "sib_ok sg ss (Node sb ch ss') = (char_val sg (ss ! 0) < char_val sg (ss' ! 0))"

fun invar :: "bool \<Rightarrow> radix_trie \<Rightarrow> bool" where
  "invar sg Null = True"
| "invar sg (Node sb ch ss) =
     (ss \<noteq> [] \<and> nul \<notin> set (butlast ss) \<and> (terminal ss \<longrightarrow> ch = Null) \<and> sib_ok sg ss sb \<and>
      invar sg sb \<and> invar sg ch)"

text \<open>
  The lengths fit the field \<^verbatim>\<open>len\<close>: for every node, the bytes on the path from the root of the
  tree to the end of its substring are fewer than \<open>2^32\<close>; \<open>i\<close> is the number of bytes above
  the sibling list. A tree built from strings of fewer than \<open>2^32 - 1\<close> bytes is of this
  kind, and in such a tree no sum of lengths that \<^verbatim>\<open>radix_trie_fuse\<close> computes wraps.
\<close>

fun fits :: "nat \<Rightarrow> radix_trie \<Rightarrow> bool" where
  "fits i Null = True"
| "fits i (Node sb ch ss) = (i + length ss < 2 ^ 32 \<and> fits i sb \<and> fits (i + length ss) ch)"

text \<open>
  Canonical form, as the specification words it: no node that is not terminal has
  exactly one child. \<open>compressed\<close> is the stronger shape the operations keep while no
  allocation fails: a node that is not terminal has at least two children.
\<close>

fun canonical :: "radix_trie \<Rightarrow> bool" where
  "canonical Null = True"
| "canonical (Node sb ch ss) =
     (\<not> (\<not> terminal ss \<and> ch \<noteq> Null \<and> sib ch = Null) \<and> canonical sb \<and> canonical ch)"

fun compressed :: "radix_trie \<Rightarrow> bool" where
  "compressed Null = True"
| "compressed (Node sb ch ss) =
     ((terminal ss \<or> (ch \<noteq> Null \<and> sib ch \<noteq> Null)) \<and> compressed sb \<and> compressed ch)"

text \<open>
  Sequences of calls. Each call comes with the outcomes of its allocation requests. \<open>run\<close>
  gives the tree after the calls, \<open>results\<close> the values they returned.
\<close>

datatype call = Insert alloc "char list" | Delete alloc "char list"

fun call_str :: "call \<Rightarrow> char list" where
  "call_str (Insert al s) = s"
| "call_str (Delete al s) = s"

fun apply_call :: "bool \<Rightarrow> radix_trie \<Rightarrow> call \<Rightarrow> int \<times> radix_trie" where
  "apply_call sg t (Insert al s) = radix_trie_insert sg al t s"
| "apply_call sg t (Delete al s) = radix_trie_delete sg al t s"

fun run :: "bool \<Rightarrow> radix_trie \<Rightarrow> call list \<Rightarrow> radix_trie" where
  "run sg t [] = t"
| "run sg t (c # cs) = run sg (snd (apply_call sg t c)) cs"

fun results :: "bool \<Rightarrow> radix_trie \<Rightarrow> call list \<Rightarrow> int list" where
  "results sg t [] = []"
| "results sg t (c # cs) = fst (apply_call sg t c) # results sg (snd (apply_call sg t c)) cs"

text \<open>
  Lexicographic order of byte strings by a valuation of the bytes. With the unsigned
  valuation \<open>char_val False\<close> it is the order by raw byte value.
\<close>

fun lex_less :: "(char \<Rightarrow> int) \<Rightarrow> char list \<Rightarrow> char list \<Rightarrow> bool" where
  "lex_less v [] [] = False"
| "lex_less v [] (y # ys) = True"
| "lex_less v (x # xs) [] = False"
| "lex_less v (x # xs) (y # ys) = (v x < v y \<or> (x = y \<and> lex_less v xs ys))"

section \<open>Facts about the comparison of a node with a string\<close>

lemma diff_loop_spec:
  "res \<le> length ss \<Longrightarrow> res \<le> length str \<Longrightarrow> take res ss = take res str \<Longrightarrow>
   nul \<notin> set (take res str) \<Longrightarrow>
   diff_loop ss str res \<le> length ss \<and> diff_loop ss str res \<le> length str \<and>
   take (diff_loop ss str res) ss = take (diff_loop ss str res) str \<and>
   nul \<notin> set (take (diff_loop ss str res) str) \<and>
   (diff_loop ss str res < length ss \<longrightarrow>
      ss ! diff_loop ss str res \<noteq> str_at str (diff_loop ss str res) \<or>
      str_at str (diff_loop ss str res) = nul)"
proof (induction ss str res rule: diff_loop.induct)
  case (1 ss str res)
  show ?case
  proof (cases "res < length ss \<and> ss ! res = str_at str res \<and> str_at str res \<noteq> nul")
    case True
    then have lt: "res < length str" by (auto simp: str_at_def split: if_splits)
    with True have eq: "ss ! res = str ! res" and nn: "str ! res \<noteq> nul"
      by (auto simp: str_at_def)
    from True lt eq "1.prems" have "take (Suc res) ss = take (Suc res) str"
      by (simp add: take_Suc_conv_app_nth)
    moreover from lt nn "1.prems" have "nul \<notin> set (take (Suc res) str)"
      by (simp add: take_Suc_conv_app_nth)
    ultimately have "diff_loop ss str (Suc res) \<le> length ss \<and> diff_loop ss str (Suc res) \<le> length str \<and>
   take (diff_loop ss str (Suc res)) ss = take (diff_loop ss str (Suc res)) str \<and>
   nul \<notin> set (take (diff_loop ss str (Suc res)) str) \<and>
   (diff_loop ss str (Suc res) < length ss \<longrightarrow>
      ss ! diff_loop ss str (Suc res) \<noteq> str_at str (diff_loop ss str (Suc res)) \<or>
      str_at str (diff_loop ss str (Suc res)) = nul)"
      using "1.IH" True lt by simp
    moreover have "diff_loop ss str res = diff_loop ss str (Suc res)"
      using True by (subst diff_loop.simps) simp
    ultimately show ?thesis by simp
  next
    case False
    then have "diff_loop ss str res = res" by (subst diff_loop.simps) auto
    with False "1.prems" show ?thesis by auto
  qed
qed

lemma diff_le_len: "radix_trie_diff node str \<le> length (substr node)"
  using diff_loop_spec [of 0 "substr node" str] by (simp add: radix_trie_diff_def)

lemma diff_le_str: "radix_trie_diff node str \<le> length str"
  using diff_loop_spec [of 0 "substr node" str] by (simp add: radix_trie_diff_def)

lemma diff_take: "take (radix_trie_diff node str) (substr node) = take (radix_trie_diff node str) str"
  using diff_loop_spec [of 0 "substr node" str] by (simp add: radix_trie_diff_def)

lemma diff_nonul: "nul \<notin> set (take (radix_trie_diff node str) str)"
  using diff_loop_spec [of 0 "substr node" str] by (simp add: radix_trie_diff_def)

lemma diff_stop:
  "radix_trie_diff node str < length (substr node) \<Longrightarrow>
   substr node ! radix_trie_diff node str = str_at str (radix_trie_diff node str) \<Longrightarrow>
   str_at str (radix_trie_diff node str) = nul"
  using diff_loop_spec [of 0 "substr node" str] by (auto simp add: radix_trie_diff_def)

lemma str_at_nul: "nul \<notin> set str \<Longrightarrow> str_at str i = nul \<longleftrightarrow> length str \<le> i"
  by (auto simp: str_at_def in_set_conv_nth)

lemma diff_pos:
  "substr node \<noteq> [] \<Longrightarrow> substr node ! 0 = str_at str 0 \<Longrightarrow> str_at str 0 \<noteq> nul \<Longrightarrow>
   0 < radix_trie_diff node str"
  unfolding radix_trie_diff_def
  using diff_loop_ge [of "Suc 0" "substr node" str]
  by (subst diff_loop.simps) auto

text \<open>A node whose substring the string runs through completely.\<close>

lemma diff_full:
  assumes "radix_trie_diff node str = length (substr node)"
  shows "str = substr node @ drop (length (substr node)) str" and "nul \<notin> set (substr node)"
proof -
  from diff_take [of node str] assms have t: "substr node = take (length (substr node)) str" by simp
  then show "str = substr node @ drop (length (substr node)) str"
    by (metis append_take_drop_id)
  from diff_nonul [of node str] assms t show "nul \<notin> set (substr node)" by simp
qed

text \<open>A node that ends the string: the string with its terminator is a prefix of the substring.\<close>

lemma diff_match:
  assumes "radix_trie_diff node str < length (substr node)"
    and "substr node ! radix_trie_diff node str = str_at str (radix_trie_diff node str)"
    and "nul \<notin> set str"
  shows "radix_trie_diff node str = length str"
    and "take (Suc (length str)) (substr node) = str @ [nul]"
proof -
  let ?d = "radix_trie_diff node str"
  from diff_stop [OF assms(1,2)] assms(3) have "length str \<le> ?d" by (simp add: str_at_nul)
  with diff_le_str [of node str] show d: "?d = length str" by simp
  from diff_stop [OF assms(1,2)] assms(2) have "substr node ! ?d = nul" by simp
  with d assms(1) diff_take [of node str]
  show "take (Suc (length str)) (substr node) = str @ [nul]"
    by (simp add: take_Suc_conv_app_nth)
qed

lemma butlast_nonul_last:
  assumes "nul \<notin> set (butlast ss)" "i < length ss" "ss ! i = nul"
  shows "i = length ss - 1"
proof (rule ccontr)
  assume "i \<noteq> length ss - 1"
  with assms(2) have "i < length (butlast ss)" by simp
  then have "butlast ss ! i \<in> set (butlast ss)" by (rule nth_mem)
  moreover from \<open>i < length (butlast ss)\<close> have "butlast ss ! i = ss ! i" by (simp add: nth_butlast)
  ultimately show False using assms by simp
qed

lemma diff_match_invar:
  assumes "radix_trie_diff node str < length (substr node)"
    and "substr node ! radix_trie_diff node str = str_at str (radix_trie_diff node str)"
    and "nul \<notin> set str" and "nul \<notin> set (butlast (substr node))"
  shows "substr node = str @ [nul]"
proof -
  let ?d = "radix_trie_diff node str"
  from diff_stop [OF assms(1,2)] assms(2) have "substr node ! ?d = nul" by simp
  from butlast_nonul_last [OF assms(4) assms(1) this] diff_match(1) [OF assms(1-3)]
  have "length (substr node) = Suc (length str)" using assms(1) by simp
  with diff_match(2) [OF assms(1-3)] show ?thesis by simp
qed

section \<open>Facts about positions in a sibling list\<close>

lemma lsfind_pre_less:
  "radix_trie_lsfind sg t c = (pre, pos) \<Longrightarrow> (ch, ss) \<in> set pre \<Longrightarrow>
   char_val sg (ss ! 0) < char_val sg c"
  by (induction t arbitrary: pre pos) (auto split: if_splits prod.splits)

lemma lsfind_Null: "radix_trie_lsfind sg Null c = (pre, pos) \<longleftrightarrow> pre = [] \<and> pos = Null"
  by auto

lemma strings_relink: "strings (relink pre t) = strings (relink pre Null) @ strings t"
  by (induction pre) auto

lemma sib_ok_relink: "pre \<noteq> [] \<Longrightarrow> sib_ok sg ss (relink pre X) = sib_ok sg ss (relink pre Y)"
  by (cases pre) auto

lemma invar_relink:
  "invar sg (relink pre X) \<longleftrightarrow>
   invar sg (relink pre Null) \<and> invar sg X \<and> (pre \<noteq> [] \<longrightarrow> sib_ok sg (snd (last pre)) X)"
proof (induction pre)
  case Nil
  show ?case by simp
next
  case (Cons a pre)
  obtain ch ss where a: "a = (ch, ss)" by (cases a)
  show ?case
  proof (cases "pre = []")
    case True
    with a show ?thesis by auto
  next
    case False
    from sib_ok_relink [OF False, of sg ss X Null] a False Cons.IH
    show ?thesis by auto
  qed
qed

lemma compressed_relink:
  "compressed (relink pre X) \<longleftrightarrow> compressed (relink pre Null) \<and> compressed X"
  by (induction pre) auto

lemma sib_ok_first:
  "X \<noteq> Null \<Longrightarrow> Y \<noteq> Null \<Longrightarrow> substr X ! 0 = substr Y ! 0 \<Longrightarrow> sib_ok sg ss X = sib_ok sg ss Y"
  by (cases X; cases Y) auto

text \<open>Replacing the node at a position by a node with the same first byte.\<close>

lemma invar_relink_same:
  assumes "invar sg (relink pre pos)" "invar sg X" "pos \<noteq> Null" "X \<noteq> Null"
    "substr X ! 0 = substr pos ! 0"
  shows "invar sg (relink pre X)"
  using assms sib_ok_first [OF assms(4) assms(3) assms(5)]
  by (simp add: invar_relink [of sg pre X] invar_relink [of sg pre pos])

text \<open>Placing a new node in front of the position \<^verbatim>\<open>radix_trie_lsfind\<close> found for its first byte.\<close>

lemma invar_relink_new:
  assumes ls: "radix_trie_lsfind sg t c = (pre, pos)" and inv: "invar sg t"
    and X: "invar sg (Node pos ch ss)" and c: "ss ! 0 = c"
  shows "invar sg (relink pre (Node pos ch ss))"
proof -
  from lsfind_relink [OF ls] inv have "invar sg (relink pre pos)" by simp
  then have "invar sg (relink pre Null)" by (simp add: invar_relink [of sg pre pos])
  moreover have "pre \<noteq> [] \<longrightarrow> sib_ok sg (snd (last pre)) (Node pos ch ss)"
  proof
    assume "pre \<noteq> []"
    then have "last pre \<in> set pre" by simp
    then have "(fst (last pre), snd (last pre)) \<in> set pre" by simp
    from lsfind_pre_less [OF ls this] c show "sib_ok sg (snd (last pre)) (Node pos ch ss)"
      by simp
  qed
  ultimately show ?thesis using X by (simp add: invar_relink [of sg pre "Node pos ch ss"])
qed

text \<open>Unlinking the node at a position.\<close>

lemma sib_ok_trans:
  "sib_ok sg ss (Node sb ch ss') \<Longrightarrow> sib_ok sg ss' sb \<Longrightarrow> sib_ok sg ss sb"
  by (cases sb) auto

lemma invar_relink_unlink:
  assumes "invar sg (relink pre (Node sb ch ss))"
  shows "invar sg (relink pre sb)"
  using assms sib_ok_trans [of sg "snd (last pre)" sb ch ss]
  by (auto simp add: invar_relink [of sg pre sb] invar_relink [of sg pre "Node sb ch ss"])

section \<open>The cases of an insertion\<close>

lemma try_split_nosplit:
  "\<not> radix_trie_diff pos str < length (substr pos) \<Longrightarrow>
   radix_trie_try_split al pos str = (0, pos, Some (drop (radix_trie_diff pos str) str), al)"
  by (simp add: radix_trie_try_split_def Let_def)

lemma try_split_found:
  "radix_trie_diff pos str < length (substr pos) \<Longrightarrow>
   substr pos ! radix_trie_diff pos str = str_at str (radix_trie_diff pos str) \<Longrightarrow>
   radix_trie_try_split al pos str = (0, pos, None, al)"
  by (simp add: radix_trie_try_split_def Let_def)

lemma try_split_split:
  "radix_trie_diff pos str < length (substr pos) \<Longrightarrow>
   substr pos ! radix_trie_diff pos str \<noteq> str_at str (radix_trie_diff pos str) \<Longrightarrow>
   radix_trie_try_split al pos str =
     (if alloc_ok al
      then (0, Node (sib pos) (Node Null (child pos) (drop (radix_trie_diff pos str) (substr pos)))
                 (take (radix_trie_diff pos str) (substr pos)),
            Some (drop (radix_trie_diff pos str) str), tl (tl al))
      else (1, pos, Some str, tl al))"
  by (simp add: radix_trie_try_split_def radix_trie_split_def Let_def)

text \<open>The bytes that the node made by \<^verbatim>\<open>radix_trie_make_suffix\<close> covers.\<close>

definition suffix_bytes :: "char list \<Rightarrow> char list" where
  "suffix_bytes str =
     take (as_unsigned (length (takeWhile (\<lambda>c. c \<noteq> nul) str) + 1))
       (takeWhile (\<lambda>c. c \<noteq> nul) str @ [nul])"

lemma insert_suffix:
  assumes "radix_trie_lsfind sg root (str_at str 0) = (pre, pos)"
    and "pos = Null \<or> char_val sg (str_at str 0) < char_val sg (substr pos ! 0)"
  shows "radix_trie_insert sg al root str =
           (if alloc_ok al then (0, relink pre (Node pos Null (suffix_bytes str)))
            else (1, root))"
  using assms lsfind_relink [OF assms(1)]
  by (subst radix_trie_insert.simps)
     (auto simp: radix_trie_make_suffix_def suffix_bytes_def Let_def)

lemma lsfind_first_eq:
  assumes "radix_trie_lsfind sg root c = (pre, pos)" "pos \<noteq> Null"
    "\<not> char_val sg c < char_val sg (substr pos ! 0)"
  shows "substr pos ! 0 = c"
  using lsfind_not_less [OF assms(1,2)] assms(3) char_val_inj [of sg "substr pos ! 0" c]
  by simp

lemma insert_found:
  assumes "radix_trie_lsfind sg root (str_at str 0) = (pre, pos)" "pos \<noteq> Null"
    and "\<not> char_val sg (str_at str 0) < char_val sg (substr pos ! 0)"
    and "radix_trie_diff pos str < length (substr pos)"
    and "substr pos ! radix_trie_diff pos str = str_at str (radix_trie_diff pos str)"
  shows "radix_trie_insert sg al root str = (0, root)"
  using assms(1-3) lsfind_relink [OF assms(1)] try_split_found [OF assms(4,5), of al]
  by (subst radix_trie_insert.simps) simp

lemma insert_descend:
  assumes "radix_trie_lsfind sg root (str_at str 0) = (pre, pos)" "pos \<noteq> Null"
    and "\<not> char_val sg (str_at str 0) < char_val sg (substr pos ! 0)"
    and "\<not> radix_trie_diff pos str < length (substr pos)"
  shows "radix_trie_insert sg al root str =
           (case radix_trie_insert sg al (child pos) (drop (radix_trie_diff pos str) str) of
              (res, ch') \<Rightarrow> (res, relink pre (Node (sib pos) ch' (substr pos))))"
  using assms(1-3) try_split_nosplit [OF assms(4), of al]
  by (subst radix_trie_insert.simps) simp

lemma insert_split:
  assumes "radix_trie_lsfind sg root (str_at str 0) = (pre, pos)" "pos \<noteq> Null"
    and "\<not> char_val sg (str_at str 0) < char_val sg (substr pos ! 0)"
    and "radix_trie_diff pos str < length (substr pos)"
    and "substr pos ! radix_trie_diff pos str \<noteq> str_at str (radix_trie_diff pos str)"
  shows "radix_trie_insert sg al root str =
           (if alloc_ok al then
              (case radix_trie_insert sg (tl (tl al))
                      (Node Null (child pos) (drop (radix_trie_diff pos str) (substr pos)))
                      (drop (radix_trie_diff pos str) str) of
                 (res, ch') \<Rightarrow>
                   (res, relink pre (Node (sib pos) ch' (take (radix_trie_diff pos str) (substr pos)))))
            else (1, root))"
  using assms(1-3) lsfind_relink [OF assms(1)] try_split_split [OF assms(4,5), of al]
  by (subst radix_trie_insert.simps) simp

text \<open>
  After a split the loop runs once more, in a child list that holds the remainder of
  the split node only, and ends with \<^verbatim>\<open>radix_trie_make_suffix\<close>.
\<close>

lemma insert_remainder:
  assumes "ss ! 0 \<noteq> str_at str 0"
  shows "radix_trie_insert sg al (Node Null ch ss) str =
           (if alloc_ok al then
              (0, if char_val sg (ss ! 0) < char_val sg (str_at str 0)
                  then Node (Node Null Null (suffix_bytes str)) ch ss
                  else Node (Node Null ch ss) Null (suffix_bytes str))
            else (1, Node Null ch ss))"
proof (cases "char_val sg (ss ! 0) < char_val sg (str_at str 0)")
  case True
  then have "radix_trie_lsfind sg (Node Null ch ss) (str_at str 0) = ([(ch, ss)], Null)" by simp
  from insert_suffix [OF this, of al] True show ?thesis by simp
next
  case False
  then have ls: "radix_trie_lsfind sg (Node Null ch ss) (str_at str 0) = ([], Node Null ch ss)"
    by simp
  from False assms have "char_val sg (str_at str 0) < char_val sg (ss ! 0)"
    using char_val_inj [of sg "ss ! 0" "str_at str 0"] by simp
  with insert_suffix [OF ls, of al] False show ?thesis by simp
qed

lemma str_at_drop: "str_at (drop d str) i = str_at str (d + i)"
  by (auto simp: str_at_def)

text \<open>
  Induction over the rounds of the loop of \<^verbatim>\<open>radix_trie_insert\<close>: only a round that runs
  through its node completely is followed by a round that is not the last.
\<close>

lemma insert_induct:
  assumes step: "\<And>(al :: alloc) (root :: radix_trie) (str :: char list).
      (\<And>pre pos. radix_trie_lsfind sg root (str_at str 0) = (pre, pos) \<Longrightarrow> pos \<noteq> Null \<Longrightarrow>
         \<not> char_val sg (str_at str 0) < char_val sg (substr pos ! 0) \<Longrightarrow>
         \<not> radix_trie_diff pos str < length (substr pos) \<Longrightarrow>
         P al (child pos) (drop (radix_trie_diff pos str) str)) \<Longrightarrow>
      P al root str"
  shows "P (al :: alloc) (root :: radix_trie) (str :: char list)"
proof -
  have "sg' = sg \<Longrightarrow> P al root str" for sg'
  proof (induction sg' al root str rule: radix_trie_insert.induct)
    case (1 sg' al root str)
    note sg = \<open>sg' = sg\<close>
    show ?case
    proof (rule step)
      fix pre pos
      assume ls: "radix_trie_lsfind sg root (str_at str 0) = (pre, pos)" and nn: "pos \<noteq> Null"
        and ng: "\<not> char_val sg (str_at str 0) < char_val sg (substr pos ! 0)"
        and d: "\<not> radix_trie_diff pos str < length (substr pos)"
      have c: "\<not> (pos = Null \<or> char_val sg' (str_at str 0) < char_val sg' (substr pos ! 0))"
        using nn ng sg by simp
      have ts: "(0, pos, Some (drop (radix_trie_diff pos str) str), al) = radix_trie_try_split al pos str"
        using try_split_nosplit [OF d, of al] by simp
      have e: "\<not> (Some (drop (radix_trie_diff pos str) str) = None \<or> (0::int) \<noteq> 0)" by simp
      have ls': "(pre, pos) = radix_trie_lsfind sg' root (str_at str 0)" using ls sg by simp
      from "1.IH" [OF ls' c ts refl refl e sg]
      show "P al (child pos) (drop (radix_trie_diff pos str) str)" by simp
    qed
  qed
  then show ?thesis by simp
qed

lemma not_terminal: "xs \<noteq> [] \<Longrightarrow> nul \<notin> set xs \<Longrightarrow> \<not> terminal xs"
  unfolding terminal_def by (metis diff_less length_greater_0_conv less_numeral_extra(1) nth_mem)

lemma terminal_snoc: "terminal (xs @ [nul])"
  by (simp add: terminal_def)

lemma terminal_drop: "d < length ss \<Longrightarrow> terminal (drop d ss) = terminal ss"
  by (auto simp: terminal_def)

lemma invar_lsfind:
  assumes "radix_trie_lsfind sg root c = (pre, pos)" "invar sg root"
  shows "invar sg pos"
  using lsfind_relink [OF assms(1)] assms(2) invar_relink [of sg pre pos] by simp

text \<open>
  Induction over the rounds of the loop of \<^verbatim>\<open>radix_trie_insert\<close> on a tree that satisfies
  the invariants and a string without terminator, with what each case knows.
\<close>

lemma insert_induct_invar [consumes 2, case_names suffix found split descend]:
  assumes "invar sg root" and "nul \<notin> set str"
    and suffix: "\<And>(al :: alloc) root str pre pos.
      invar sg root \<Longrightarrow> nul \<notin> set str \<Longrightarrow>
      radix_trie_lsfind sg root (str_at str 0) = (pre, pos) \<Longrightarrow>
      pos = Null \<or> char_val sg (str_at str 0) < char_val sg (substr pos ! 0) \<Longrightarrow> P al root str"
    and found: "\<And>(al :: alloc) root str pre sb.
      invar sg root \<Longrightarrow> nul \<notin> set str \<Longrightarrow>
      radix_trie_lsfind sg root (str_at str 0) = (pre, Node sb Null (str @ [nul])) \<Longrightarrow>
      radix_trie_diff (Node sb Null (str @ [nul])) str = length str \<Longrightarrow> P al root str"
    and split: "\<And>(al :: alloc) root str pre sb ch ss d.
      invar sg root \<Longrightarrow> nul \<notin> set str \<Longrightarrow>
      radix_trie_lsfind sg root (str_at str 0) = (pre, Node sb ch ss) \<Longrightarrow>
      ss ! 0 = str_at str 0 \<Longrightarrow>
      d = radix_trie_diff (Node sb ch ss) str \<Longrightarrow> 0 < d \<Longrightarrow> d < length ss \<Longrightarrow> d \<le> length str \<Longrightarrow>
      take d ss = take d str \<Longrightarrow> ss ! d \<noteq> str_at str d \<Longrightarrow> P al root str"
    and descend: "\<And>(al :: alloc) root str pre sb ch ss rest.
      invar sg root \<Longrightarrow> nul \<notin> set str \<Longrightarrow>
      radix_trie_lsfind sg root (str_at str 0) = (pre, Node sb ch ss) \<Longrightarrow>
      ss ! 0 = str_at str 0 \<Longrightarrow>
      radix_trie_diff (Node sb ch ss) str = length ss \<Longrightarrow> str = ss @ rest \<Longrightarrow>
      ss \<noteq> [] \<Longrightarrow> nul \<notin> set ss \<Longrightarrow> invar sg ch \<Longrightarrow> nul \<notin> set rest \<Longrightarrow>
      P al ch rest \<Longrightarrow> P al root str"
  shows "P al root str"
proof -
  have "invar sg root \<longrightarrow> nul \<notin> set str \<longrightarrow> P al root str"
  proof (induction al root str rule: insert_induct [where sg = sg])
    case (1 al root str)
    show ?case
    proof (intro impI)
      assume inv: "invar sg root" and nf: "nul \<notin> set str"
      obtain pre pos where ls: "radix_trie_lsfind sg root (str_at str 0) = (pre, pos)"
        by (cases "radix_trie_lsfind sg root (str_at str 0)")
      show "P al root str"
      proof (cases "pos = Null \<or> char_val sg (str_at str 0) < char_val sg (substr pos ! 0)")
        case True
        from suffix [OF inv nf ls True] show ?thesis .
      next
        case False
        then have nn: "pos \<noteq> Null"
          and ng: "\<not> char_val sg (str_at str 0) < char_val sg (substr pos ! 0)" by simp_all
        from nn obtain sb ch ss where pos: "pos = Node sb ch ss" by (cases pos) auto
        from lsfind_first_eq [OF ls nn ng] pos have first: "ss ! 0 = str_at str 0" by simp
        from invar_lsfind [OF ls inv] pos have ipos: "invar sg (Node sb ch ss)" by simp
        let ?d = "radix_trie_diff (Node sb ch ss) str"
        have dle: "?d \<le> length ss" using diff_le_len [of "Node sb ch ss" str] by simp
        show ?thesis
        proof (cases "?d < length ss")
          case lt: True
          show ?thesis
          proof (cases "ss ! ?d = str_at str ?d")
            case True
            from diff_match_invar [of "Node sb ch ss" str] lt True nf ipos
            have ss: "ss = str @ [nul]" by simp
            with ipos terminal_snoc have "ch = Null" by simp
            moreover from diff_match(1) [of "Node sb ch ss" str] lt True nf
            have "?d = length str" by simp
            ultimately show ?thesis using found [where pre = pre and sb = sb and al = al, OF inv nf] ls pos ss by simp
          next
            case False
            have "0 < ?d"
            proof (rule ccontr)
              assume "\<not> 0 < ?d"
              with False first show False by simp
            qed
            from split [where pre = pre and sb = sb and ch = ch and al = al, OF inv nf _ first refl this lt diff_le_str _ False] ls pos
              diff_take [of "Node sb ch ss" str]
            show ?thesis by simp
          qed
        next
          case False
          with dle have d: "?d = length ss" by simp
          from diff_full [of "Node sb ch ss" str] d
          have str: "str = ss @ drop (length ss) str" and nss: "nul \<notin> set ss" by simp_all
          from ipos have ne: "ss \<noteq> []" and ich: "invar sg ch" by simp_all
          from nf have nr: "nul \<notin> set (drop (length ss) str)" by (metis in_set_dropD)
          from "1" [OF ls nn ng] False pos d ich nr
          have "P al ch (drop (length ss) str)" by simp
          from descend [where pre = pre and sb = sb, OF inv nf _ first d str ne nss ich nr this] ls pos
          show ?thesis by simp
        qed
      qed
    qed
  qed
  with assms(1,2) show ?thesis by simp
qed

text \<open>
  The same induction for a string of fewer than \<open>2^32 - 1\<close> bytes, so that the length of the
  string with its terminator fits the field \<^verbatim>\<open>len\<close>.
\<close>

lemma insert_induct_bounded [consumes 3, case_names suffix found split descend]:
  assumes "invar sg root" and "nul \<notin> set str" and "length str + 1 < 2 ^ 32"
    and suffix: "\<And>(al :: alloc) root str pre pos.
      invar sg root \<Longrightarrow> nul \<notin> set str \<Longrightarrow>
      radix_trie_lsfind sg root (str_at str 0) = (pre, pos) \<Longrightarrow>
      pos = Null \<or> char_val sg (str_at str 0) < char_val sg (substr pos ! 0) \<Longrightarrow>
      length str + 1 < 2 ^ 32 \<Longrightarrow> P al root str"
    and found: "\<And>(al :: alloc) root str pre sb.
      invar sg root \<Longrightarrow> nul \<notin> set str \<Longrightarrow>
      radix_trie_lsfind sg root (str_at str 0) = (pre, Node sb Null (str @ [nul])) \<Longrightarrow>
      radix_trie_diff (Node sb Null (str @ [nul])) str = length str \<Longrightarrow>
      length str + 1 < 2 ^ 32 \<Longrightarrow> P al root str"
    and split: "\<And>(al :: alloc) root str pre sb ch ss d.
      invar sg root \<Longrightarrow> nul \<notin> set str \<Longrightarrow>
      radix_trie_lsfind sg root (str_at str 0) = (pre, Node sb ch ss) \<Longrightarrow>
      ss ! 0 = str_at str 0 \<Longrightarrow>
      d = radix_trie_diff (Node sb ch ss) str \<Longrightarrow> 0 < d \<Longrightarrow> d < length ss \<Longrightarrow> d \<le> length str \<Longrightarrow>
      take d ss = take d str \<Longrightarrow> ss ! d \<noteq> str_at str d \<Longrightarrow>
      length str + 1 < 2 ^ 32 \<Longrightarrow> P al root str"
    and descend: "\<And>(al :: alloc) root str pre sb ch ss rest.
      invar sg root \<Longrightarrow> nul \<notin> set str \<Longrightarrow>
      radix_trie_lsfind sg root (str_at str 0) = (pre, Node sb ch ss) \<Longrightarrow>
      ss ! 0 = str_at str 0 \<Longrightarrow>
      radix_trie_diff (Node sb ch ss) str = length ss \<Longrightarrow> str = ss @ rest \<Longrightarrow>
      ss \<noteq> [] \<Longrightarrow> nul \<notin> set ss \<Longrightarrow> invar sg ch \<Longrightarrow> nul \<notin> set rest \<Longrightarrow>
      length str + 1 < 2 ^ 32 \<Longrightarrow> length rest + 1 < 2 ^ 32 \<Longrightarrow> P al ch rest \<Longrightarrow>
      P al root str"
  shows "P al root str"
proof -
  from assms(1,2) have "length str + 1 < 2 ^ 32 \<longrightarrow> P al root str"
  proof (induction al root str rule: insert_induct_invar)
    case (suffix al root str pre pos)
    from assms(4) [OF suffix] show ?case by simp
  next
    case (found al root str pre sb)
    from assms(5) [OF found] show ?case by simp
  next
    case (split al root str pre sb ch ss d)
    from assms(6) [OF split] show ?case by simp
  next
    case (descend al root str pre sb ch ss rest)
    show ?case
    proof
      assume b: "length str + 1 < 2 ^ 32"
      with descend(6) have b': "length rest + 1 < 2 ^ 32" by simp
      with descend(11) have "P al ch rest" by simp
      from assms(7) [OF descend(1-10) b b' this] show "P al root str" .
    qed
  qed
  with assms(3) show ?thesis by simp
qed

lemma snoc_nul_nth: "i \<le> length str \<Longrightarrow> (str @ [nul]) ! i = str_at str i"
  by (auto simp: str_at_def nth_append)

lemma takeWhile_nonul: "nul \<notin> set str \<Longrightarrow> takeWhile (\<lambda>c. c \<noteq> nul) str = str"
  by (induction str) auto

text \<open>What \<^verbatim>\<open>radix_trie_insert\<close> returns in each of the four cases.\<close>

lemma suffix_bytes_short:
  assumes "nul \<notin> set str" "length str + 1 < 2 ^ 32"
  shows "suffix_bytes str = str @ [nul]"
  using assms(2) by (simp add: suffix_bytes_def as_unsigned_def takeWhile_nonul [OF assms(1)])

lemma insert_eq_suffix_gen:
  assumes "radix_trie_lsfind sg root (str_at str 0) = (pre, pos)"
    "pos = Null \<or> char_val sg (str_at str 0) < char_val sg (substr pos ! 0)"
  shows "radix_trie_insert sg al root str =
           (if alloc_ok al then (0, relink pre (Node pos Null (suffix_bytes str)))
            else (1, root))"
  using insert_suffix [OF assms, of al] .

lemma insert_eq_suffix:
  assumes "nul \<notin> set str" "radix_trie_lsfind sg root (str_at str 0) = (pre, pos)"
    "pos = Null \<or> char_val sg (str_at str 0) < char_val sg (substr pos ! 0)"
    "length str + 1 < 2 ^ 32"
  shows "radix_trie_insert sg al root str =
           (if alloc_ok al then (0, relink pre (Node pos Null (str @ [nul]))) else (1, root))"
  using insert_suffix [OF assms(2,3), of al] by (simp add: suffix_bytes_short [OF assms(1,4)])

lemma insert_eq_found:
  assumes "radix_trie_lsfind sg root (str_at str 0) = (pre, Node sb Null (str @ [nul]))"
    "radix_trie_diff (Node sb Null (str @ [nul])) str = length str"
  shows "radix_trie_insert sg al root str = (0, root)"
  using insert_found [OF assms(1), of al] assms(2) snoc_nul_nth [of "length str" str]
    snoc_nul_nth [of 0 str]
  by simp

lemma insert_eq_descend:
  assumes "radix_trie_lsfind sg root (str_at str 0) = (pre, Node sb ch ss)"
    "ss ! 0 = str_at str 0" "radix_trie_diff (Node sb ch ss) str = length ss" "str = ss @ rest"
  shows "radix_trie_insert sg al root str =
           (case radix_trie_insert sg al ch rest of
              (res, ch') \<Rightarrow> (res, relink pre (Node sb ch' ss)))"
proof -
  from assms(4) have "drop (length ss) str = rest" by (metis append_eq_conv_conj)
  with insert_descend [OF assms(1), of al] assms(2,3) show ?thesis by simp
qed

lemma insert_eq_split_gen:
  assumes "radix_trie_lsfind sg root (str_at str 0) = (pre, Node sb ch ss)"
    "ss ! 0 = str_at str 0" "d = radix_trie_diff (Node sb ch ss) str" "d < length ss"
    "ss ! d \<noteq> str_at str d"
  shows "radix_trie_insert sg al root str =
           (if \<not> alloc_ok al then (1, root)
            else if \<not> alloc_ok (tl (tl al))
            then (1, relink pre (Node sb (Node Null ch (drop d ss)) (take d ss)))
            else (0, relink pre (Node sb
                   (if char_val sg (ss ! d) < char_val sg (str_at str d)
                    then Node (Node Null Null (suffix_bytes (drop d str))) ch (drop d ss)
                    else Node (Node Null ch (drop d ss)) Null (suffix_bytes (drop d str)))
                   (take d ss))))"
proof -
  let ?d = "radix_trie_diff (Node sb ch ss) str"
  have lt: "?d < length ss" and ne: "ss ! ?d \<noteq> str_at str ?d" using assms(3-5) by simp_all
  have r: "drop ?d ss ! 0 \<noteq> str_at (drop ?d str) 0"
    using lt ne by (simp add: str_at_drop)
  have e: "drop ?d ss ! 0 = ss ! ?d" using lt by simp
  have "radix_trie_insert sg al root str =
           (if \<not> alloc_ok al then (1, root)
            else if \<not> alloc_ok (tl (tl al))
            then (1, relink pre (Node sb (Node Null ch (drop ?d ss)) (take ?d ss)))
            else (0, relink pre (Node sb
                   (if char_val sg (ss ! ?d) < char_val sg (str_at str ?d)
                    then Node (Node Null Null (suffix_bytes (drop ?d str))) ch (drop ?d ss)
                    else Node (Node Null ch (drop ?d ss)) Null (suffix_bytes (drop ?d str)))
                   (take ?d ss))))"
    using insert_split [OF assms(1), of al] assms(2) lt ne
      insert_remainder [OF r, of sg "tl (tl al)" ch] e
    by (simp add: str_at_drop)
  then show ?thesis unfolding assms(3) .
qed

lemma insert_eq_split:
  assumes "nul \<notin> set str" "radix_trie_lsfind sg root (str_at str 0) = (pre, Node sb ch ss)"
    "ss ! 0 = str_at str 0" "d = radix_trie_diff (Node sb ch ss) str" "d < length ss"
    "ss ! d \<noteq> str_at str d" "length str + 1 < 2 ^ 32"
  shows "radix_trie_insert sg al root str =
           (if \<not> alloc_ok al then (1, root)
            else if \<not> alloc_ok (tl (tl al))
            then (1, relink pre (Node sb (Node Null ch (drop d ss)) (take d ss)))
            else (0, relink pre (Node sb
                   (if char_val sg (ss ! d) < char_val sg (str_at str d)
                    then Node (Node Null Null (drop d str @ [nul])) ch (drop d ss)
                    else Node (Node Null ch (drop d ss)) Null (drop d str @ [nul]))
                   (take d ss))))"
proof -
  have nf: "nul \<notin> set (drop d str)" using assms(1) by (metis in_set_dropD)
  have "length (drop d str) + 1 < 2 ^ 32" using assms(7) by simp
  from suffix_bytes_short [OF nf this] insert_eq_split_gen [OF assms(2-6), of al]
  show ?thesis by simp
qed

section \<open>Insertion keeps the invariants\<close>

lemma sib_ok_cong: "ss ! 0 = ss' ! 0 \<Longrightarrow> sib_ok sg ss sb = sib_ok sg ss' sb"
  by (cases sb) auto

lemma invar_suffix_node:
  assumes "nul \<notin> set str" "invar sg pos"
    "pos = Null \<or> char_val sg (str_at str 0) < char_val sg (substr pos ! 0)"
  shows "invar sg (Node pos Null (str @ [nul]))"
  using assms snoc_nul_nth [of 0 str] by (cases pos) (auto simp: terminal_snoc)

text \<open>The node a split leaves in place of the split node, for any child list \<open>X\<close>.\<close>

lemma invar_prefix_node:
  assumes "invar sg (Node sb ch ss)" "0 < d" "d < length ss" "take d ss = take d str"
    "nul \<notin> set str" "invar sg X"
  shows "invar sg (Node sb X (take d ss))"
proof -
  have ne: "take d ss \<noteq> []" using assms(2,3) by auto
  have nf: "nul \<notin> set (take d ss)" using assms(4,5) by (metis in_set_takeD)
  then have nb: "nul \<notin> set (butlast (take d ss))" by (metis in_set_butlastD)
  have "take d ss ! 0 = ss ! 0" using assms(2) by simp
  from sib_ok_cong [OF this, of sg sb] assms(1) have "sib_ok sg (take d ss) sb" by simp
  with ne nb not_terminal [OF ne nf] assms(1,6) show ?thesis by simp
qed

lemma invar_remainder_node:
  assumes "invar sg (Node sb ch ss)" "d < length ss"
  shows "invar sg (Node Null ch (drop d ss))"
proof -
  have "nul \<notin> set (drop d (butlast ss))" using assms(1) by (auto dest: in_set_dropD)
  then have "nul \<notin> set (butlast (drop d ss))" by (simp add: butlast_drop)
  with assms terminal_drop [OF assms(2)] show ?thesis by simp
qed

lemma invar_split_children:
  assumes "invar sg (Node sb ch ss)" "d < length ss" "nul \<notin> set str" "ss ! d \<noteq> str_at str d"
  shows "invar sg (if char_val sg (ss ! d) < char_val sg (str_at str d)
                   then Node (Node Null Null (drop d str @ [nul])) ch (drop d ss)
                   else Node (Node Null ch (drop d ss)) Null (drop d str @ [nul]))"
proof -
  have nf: "nul \<notin> set (drop d str)" using assms(3) by (metis in_set_dropD)
  have r: "invar sg (Node Null ch (drop d ss))" by (rule invar_remainder_node [OF assms(1,2)])
  have f1: "drop d ss ! 0 = ss ! d" using assms(2) by simp
  have f2: "(drop d str @ [nul]) ! 0 = str_at str d"
    using snoc_nul_nth [of 0 "drop d str"] by (simp add: str_at_drop)
  show ?thesis
  proof (cases "char_val sg (ss ! d) < char_val sg (str_at str d)")
    case True
    with r nf f1 f2 show ?thesis by (simp add: terminal_snoc)
  next
    case False
    with assms(4) char_val_inj [of sg "ss ! d" "str_at str d"]
    have "char_val sg (str_at str d) < char_val sg (ss ! d)" by simp
    with False r nf f1 f2 show ?thesis by (simp add: terminal_snoc)
  qed
qed

lemma insert_invar:
  assumes "invar sg root" "nul \<notin> set str" "length str + 1 < 2 ^ 32"
  shows "invar sg (snd (radix_trie_insert sg al root str))"
  using assms
proof (induction al root str rule: insert_induct_bounded)
  case (suffix al root str pre pos)
  from invar_suffix_node [OF suffix(2) invar_lsfind [OF suffix(3,1)] suffix(4)]
  have "invar sg (Node pos Null (str @ [nul]))" .
  from invar_relink_new [OF suffix(3,1) this] snoc_nul_nth [of 0 str]
  have "invar sg (relink pre (Node pos Null (str @ [nul])))" by simp
  with suffix(1) show ?case by (simp add: insert_eq_suffix [OF suffix(2-5)])
next
  case (found al root str pre sb)
  then show ?case by (simp add: insert_eq_found [OF found(3,4)])
next
  case (split al root str pre sb ch ss d)
  note eq = insert_eq_split [OF split(2,3,4,5,7,10,11), of al]
  from invar_lsfind [OF split(3,1)] have ip: "invar sg (Node sb ch ss)" .
  from lsfind_relink [OF split(3)] split(1) have ir: "invar sg (relink pre (Node sb ch ss))" by simp
  have same: "\<And>X. invar sg X \<Longrightarrow> invar sg (relink pre (Node sb X (take d ss)))"
  proof -
    fix X assume "invar sg X"
    from invar_prefix_node [OF ip split(6,7,9,2) this] have "invar sg (Node sb X (take d ss))" .
    from invar_relink_same [OF ir this] split(6) show "invar sg (relink pre (Node sb X (take d ss)))"
      by simp
  qed
  from same [OF invar_remainder_node [OF ip split(7)]] same [OF invar_split_children [OF ip split(7,2,10)]]
    split(1)
  show ?case unfolding eq by simp
next
  case (descend al root str pre sb ch ss rest)
  obtain res ch' where r: "radix_trie_insert sg al ch rest = (res, ch')"
    by (cases "radix_trie_insert sg al ch rest")
  with descend(13) have ich: "invar sg ch'" by simp
  from invar_lsfind [OF descend(3,1)] have ip: "invar sg (Node sb ch ss)" .
  with ich not_terminal [OF descend(7,8)] have "invar sg (Node sb ch' ss)" by simp
  moreover from lsfind_relink [OF descend(3)] descend(1)
  have "invar sg (relink pre (Node sb ch ss))" by simp
  ultimately have "invar sg (relink pre (Node sb ch' ss))"
    using invar_relink_same [of sg pre "Node sb ch ss" "Node sb ch' ss"] by simp
  then show ?case by (simp add: insert_eq_descend [OF descend(3,4,5,6)] r)
qed

section \<open>The strings of a tree after an insertion\<close>

lemma strings_nonterminal:
  "\<not> terminal ss \<Longrightarrow> strings (Node sb ch ss) = map ((@) ss) (strings ch) @ strings sb"
  by simp

lemma strings_prefix_remainder:
  assumes "d < length ss" "\<not> terminal (take d ss)"
  shows "strings (Node sb (Node Null ch (drop d ss)) (take d ss)) = strings (Node sb ch ss)"
proof -
  have "map ((@) (take d ss)) (map ((@) (drop d ss)) (strings ch)) = map ((@) ss) (strings ch)"
    by (simp add: comp_def flip: append_assoc)
  with assms terminal_drop [OF assms(1)] show ?thesis by simp
qed

lemma set_strings_split:
  assumes "d < length ss" "\<not> terminal (take d ss)" "take d ss = take d str"
  shows "set (strings (Node sb
            (if b then Node (Node Null Null (drop d str @ [nul])) ch (drop d ss)
             else Node (Node Null ch (drop d ss)) Null (drop d str @ [nul]))
            (take d ss))) = insert (str @ [nul]) (set (strings (Node sb ch ss)))"
proof -
  have k: "take d ss @ drop d str @ [nul] = str @ [nul]"
    using assms(3) by (metis append_assoc append_take_drop_id)
  have m: "map ((@) (take d ss)) (map ((@) (drop d ss)) (strings ch)) = map ((@) ss) (strings ch)"
    by (simp add: comp_def flip: append_assoc)
  have "(@) (take d ss) ` (@) (drop d ss) ` set (strings ch) = (@) ss ` set (strings ch)"
    using m by (metis image_set)
  with assms(1,2) terminal_drop [OF assms(1)] k show ?thesis
    by (cases b) (auto simp: terminal_snoc)
qed

lemma insert_strings:
  assumes "invar sg root" "nul \<notin> set str" "length str + 1 < 2 ^ 32"
  shows "(fst (radix_trie_insert sg al root str) = 0 \<or> fst (radix_trie_insert sg al root str) = 1) \<and>
         (fst (radix_trie_insert sg al root str) \<noteq> 0 \<longrightarrow>
            strings (snd (radix_trie_insert sg al root str)) = strings root) \<and>
         (fst (radix_trie_insert sg al root str) = 0 \<longrightarrow>
            set (strings (snd (radix_trie_insert sg al root str))) =
            insert (str @ [nul]) (set (strings root)))"
  using assms
proof (induction al root str rule: insert_induct_bounded)
  case (suffix al root str pre pos)
  from lsfind_relink [OF suffix(3)] have "strings root = strings (relink pre Null) @ strings pos"
    using strings_relink [of pre pos] by simp
  then show ?case
    by (simp add: insert_eq_suffix [OF suffix(2-5)]
        strings_relink [of pre "Node pos Null (str @ [nul])"] terminal_snoc)
next
  case (found al root str pre sb)
  from lsfind_relink [OF found(3)]
  have "strings root = strings (relink pre Null) @ strings (Node sb Null (str @ [nul]))"
    using strings_relink [of pre "Node sb Null (str @ [nul])"] by simp
  then show ?case by (auto simp add: insert_eq_found [OF found(3,4)] terminal_snoc)
next
  case (split al root str pre sb ch ss d)
  note eq = insert_eq_split [OF split(2,3,4,5,7,10,11), of al]
  from lsfind_relink [OF split(3)]
  have root: "strings root = strings (relink pre Null) @ strings (Node sb ch ss)"
    using strings_relink [of pre "Node sb ch ss"] by simp
  have ne: "take d ss \<noteq> []" using split(6,7) by auto
  have "nul \<notin> set (take d ss)" using split(2,9) by (metis in_set_takeD)
  from not_terminal [OF ne this] have nt: "\<not> terminal (take d ss)" .
  show ?case unfolding eq
    using root strings_prefix_remainder [OF split(7) nt, of sb ch]
      set_strings_split [OF split(7) nt split(9), of sb _ ch]
    by (simp add: strings_relink [of pre "Node sb X (take d ss)" for X] del: strings.simps)
next
  case (descend al root str pre sb ch ss rest)
  obtain res ch' where r: "radix_trie_insert sg al ch rest = (res, ch')"
    by (cases "radix_trie_insert sg al ch rest")
  note IH = descend(13) [unfolded r, simplified]
  from lsfind_relink [OF descend(3)]
  have root: "strings root = strings (relink pre Null) @ strings (Node sb ch ss)"
    using strings_relink [of pre "Node sb ch ss"] by simp
  from not_terminal [OF descend(7,8)] have nt: "\<not> terminal ss" .
  have k: "ss @ rest @ [nul] = str @ [nul]" using descend(6) by simp
  show ?case
    using IH root nt k
    by (auto simp add: insert_eq_descend [OF descend(3,4,5,6)] r
        strings_relink [of pre "Node sb ch' ss"])
qed

section \<open>Insertion and the compressed shape\<close>

text \<open>The number of nodes of a sibling list.\<close>

fun nsibs :: "radix_trie \<Rightarrow> nat" where
  "nsibs Null = 0"
| "nsibs (Node sb ch ss) = Suc (nsibs sb)"

lemma two_sibs: "(t \<noteq> Null \<and> sib t \<noteq> Null) \<longleftrightarrow> 2 \<le> nsibs t"
  by (cases t; cases "sib t") auto

lemma nsibs_relink: "nsibs (relink pre t) = length pre + nsibs t"
  by (induction pre) auto

lemma insert_nsibs:
  assumes "invar sg root" "nul \<notin> set str"
  shows "nsibs root \<le> nsibs (snd (radix_trie_insert sg al root str))"
  using assms
proof (induction al root str rule: insert_induct_invar)
  case (suffix al root str pre pos)
  from lsfind_relink [OF suffix(3)] nsibs_relink [of pre pos]
  have "nsibs root = length pre + nsibs pos" by simp
  then show ?case by (simp add: insert_eq_suffix_gen [OF suffix(3,4)] nsibs_relink)
next
  case (found al root str pre sb)
  then show ?case by (simp add: insert_eq_found [OF found(3,4)])
next
  case (split al root str pre sb ch ss d)
  from lsfind_relink [OF split(3)] nsibs_relink [of pre "Node sb ch ss"]
  have "nsibs root = length pre + Suc (nsibs sb)" by simp
  then show ?case
    unfolding insert_eq_split_gen [OF split(3,4,5,7,10), of al] by (simp add: nsibs_relink)
next
  case (descend al root str pre sb ch ss rest)
  from lsfind_relink [OF descend(3)] nsibs_relink [of pre "Node sb ch ss"]
  have "nsibs root = length pre + Suc (nsibs sb)" by simp
  then show ?case
    by (simp add: insert_eq_descend [OF descend(3,4,5,6)] nsibs_relink split: prod.split)
qed

lemma compressed_lsfind:
  assumes "radix_trie_lsfind sg root c = (pre, pos)" "compressed root"
  shows "compressed pos" and "compressed (relink pre Null)"
  using lsfind_relink [OF assms(1)] assms(2) compressed_relink [of pre pos] by simp_all

lemma insert_compressed:
  assumes "invar sg root" "nul \<notin> set str" "length str + 1 < 2 ^ 32"
  shows "compressed root \<longrightarrow> fst (radix_trie_insert sg al root str) = 0 \<longrightarrow>
         compressed (snd (radix_trie_insert sg al root str))"
  using assms
proof (induction al root str rule: insert_induct_bounded)
  case (suffix al root str pre pos)
  show ?case
    using compressed_lsfind [OF suffix(3)]
    by (simp add: insert_eq_suffix [OF suffix(2-5)] terminal_snoc
        compressed_relink [of pre "Node pos Null (str @ [nul])"])
next
  case (found al root str pre sb)
  then show ?case by (simp add: insert_eq_found [OF found(3,4)])
next
  case (split al root str pre sb ch ss d)
  show ?case
    unfolding insert_eq_split [OF split(2,3,4,5,7,10,11), of al]
    using compressed_lsfind [OF split(3)] terminal_drop [OF split(7)]
    by (auto simp add: terminal_snoc compressed_relink [of pre "Node sb X (take d ss)" for X])
next
  case (descend al root str pre sb ch ss rest)
  obtain res ch' where r: "radix_trie_insert sg al ch rest = (res, ch')"
    by (cases "radix_trie_insert sg al ch rest")
  from insert_nsibs [OF descend(9,10), of al] r have n: "nsibs ch \<le> nsibs ch'" by simp
  from not_terminal [OF descend(7,8)] have nt: "\<not> terminal ss" .
  show ?case
    using compressed_lsfind [OF descend(3)] descend(13) n nt two_sibs [of ch] two_sibs [of ch']
    by (auto simp add: insert_eq_descend [OF descend(3,4,5,6)] r
        compressed_relink [of pre "Node sb ch' ss"])
qed

text \<open>A call whose first allocation request fails leaves the tree as it was.\<close>

lemma insert_first_alloc_fails:
  assumes "invar sg root" "nul \<notin> set str"
  shows "\<not> alloc_ok al \<longrightarrow> snd (radix_trie_insert sg al root str) = root"
  using assms
proof (induction al root str rule: insert_induct_invar)
  case (suffix al root str pre pos)
  then show ?case by (simp add: insert_eq_suffix_gen [OF suffix(3,4)])
next
  case (found al root str pre sb)
  then show ?case by (simp add: insert_eq_found [OF found(3,4)])
next
  case (split al root str pre sb ch ss d)
  show ?case unfolding insert_eq_split_gen [OF split(3,4,5,7,10), of al] by simp
next
  case (descend al root str pre sb ch ss rest)
  from lsfind_relink [OF descend(3)] descend(11)
  show ?case by (auto simp add: insert_eq_descend [OF descend(3,4,5,6)] split: prod.split)
qed

text \<open>
  A call that fails keeps the strings and the invariants, whatever the length of the
  string: it returns before the node for the string is made.
\<close>

lemma insert_failure:
  assumes "invar sg root" "nul \<notin> set str"
  shows "fst (radix_trie_insert sg al root str) \<noteq> 0 \<longrightarrow>
         invar sg (snd (radix_trie_insert sg al root str)) \<and>
         strings (snd (radix_trie_insert sg al root str)) = strings root"
  using assms
proof (induction al root str rule: insert_induct_invar)
  case (suffix al root str pre pos)
  then show ?case by (simp add: insert_eq_suffix_gen [OF suffix(3,4)])
next
  case (found al root str pre sb)
  then show ?case by (simp add: insert_eq_found [OF found(3,4)])
next
  case (split al root str pre sb ch ss d)
  note eq = insert_eq_split_gen [OF split(3,4,5,7,10), of al]
  from invar_lsfind [OF split(3,1)] have ip: "invar sg (Node sb ch ss)" .
  from lsfind_relink [OF split(3)] split(1) have ir: "invar sg (relink pre (Node sb ch ss))" by simp
  from invar_prefix_node [OF ip split(6,7,9,2) invar_remainder_node [OF ip split(7)]]
  have "invar sg (Node sb (Node Null ch (drop d ss)) (take d ss))" .
  from invar_relink_same [OF ir this] split(6)
  have i: "invar sg (relink pre (Node sb (Node Null ch (drop d ss)) (take d ss)))" by simp
  from lsfind_relink [OF split(3)]
  have root: "strings root = strings (relink pre Null) @ strings (Node sb ch ss)"
    using strings_relink [of pre "Node sb ch ss"] by simp
  have ne: "take d ss \<noteq> []" using split(6,7) by auto
  have "nul \<notin> set (take d ss)" using split(2,9) by (metis in_set_takeD)
  from not_terminal [OF ne this] have nt: "\<not> terminal (take d ss)" .
  have s: "strings (relink pre (Node sb (Node Null ch (drop d ss)) (take d ss))) = strings root"
    using root strings_prefix_remainder [OF split(7) nt, of sb ch]
    by (simp add: strings_relink [of pre "Node sb X (take d ss)" for X] del: strings.simps)
  from i s split(1) show ?case unfolding eq by simp
next
  case (descend al root str pre sb ch ss rest)
  obtain res ch' where r: "radix_trie_insert sg al ch rest = (res, ch')"
    by (cases "radix_trie_insert sg al ch rest")
  show ?case
  proof
    assume "fst (radix_trie_insert sg al root str) \<noteq> 0"
    then have "res \<noteq> 0" by (simp add: insert_eq_descend [OF descend(3,4,5,6)] r)
    with descend(11) r have ich: "invar sg ch'" and sch: "strings ch' = strings ch" by simp_all
    from invar_lsfind [OF descend(3,1)] have ip: "invar sg (Node sb ch ss)" .
    with ich not_terminal [OF descend(7,8)] have "invar sg (Node sb ch' ss)" by simp
    moreover from lsfind_relink [OF descend(3)] descend(1)
    have "invar sg (relink pre (Node sb ch ss))" by simp
    ultimately have i: "invar sg (relink pre (Node sb ch' ss))"
      using invar_relink_same [of sg pre "Node sb ch ss" "Node sb ch' ss"] by simp
    from lsfind_relink [OF descend(3)]
    have "strings root = strings (relink pre Null) @ strings (Node sb ch ss)"
      using strings_relink [of pre "Node sb ch ss"] by simp
    with sch have s: "strings (relink pre (Node sb ch' ss)) = strings root"
      by (simp add: strings_relink [of pre "Node sb ch' ss"])
    from i s show "invar sg (snd (radix_trie_insert sg al root str)) \<and>
         strings (snd (radix_trie_insert sg al root str)) = strings root"
      by (simp add: insert_eq_descend [OF descend(3,4,5,6)] r)
  qed
qed

section \<open>Lengths that fit the field\<close>

lemma fits_relink: "fits i (relink pre t) \<longleftrightarrow> fits i (relink pre Null) \<and> fits i t"
  by (induction pre) auto

lemma fits_lsfind:
  assumes "radix_trie_lsfind sg root c = (pre, pos)" "fits i root"
  shows "fits i pos" and "fits i (relink pre Null)"
  using lsfind_relink [OF assms(1)] assms(2) fits_relink [of i pre pos] by simp_all

text \<open>Inserting a string that fits keeps the lengths within the field.\<close>

lemma insert_fits:
  assumes "invar sg root" "nul \<notin> set str" "length str + 1 < 2 ^ 32"
  shows "\<forall>i. fits i root \<longrightarrow> i + length str + 1 < 2 ^ 32 \<longrightarrow>
           fits i (snd (radix_trie_insert sg al root str))"
  using assms
proof (induction al root str rule: insert_induct_bounded)
  case (suffix al root str pre pos)
  show ?case
    using fits_lsfind [OF suffix(3)]
    by (simp add: insert_eq_suffix [OF suffix(2-5)]
        fits_relink [of _ pre "Node pos Null (str @ [nul])"])
next
  case (found al root str pre sb)
  then show ?case by (simp add: insert_eq_found [OF found(3,4)])
next
  case (split al root str pre sb ch ss d)
  have l: "d + (length ss - d) = length ss" "d + (length str - d) = length str"
    using split(7,8) by simp_all
  have m: "min (length ss) d = d" using split(7) by simp
  show ?case
  proof (intro allI impI)
    fix i
    assume f: "fits i root" and b: "i + length str + 1 < 2 ^ 32"
    from fits_lsfind [OF split(3) f]
    have fp: "fits i (Node sb ch ss)" and fr: "fits i (relink pre Null)" .
    from fp split(7) have bd: "i + d < 2 ^ 32" by simp
    have a1: "i + d + (length ss - d) = i + length ss" using l by simp
    have a2: "i + d + (length str - d + 1) = i + length str + 1" using l by simp
    have f1: "fits i (Node sb (Node Null ch (drop d ss)) (take d ss))"
      using fp bd a1 by (simp add: m)
    have f2: "fits i (Node sb (Node (Node Null Null (drop d str @ [nul])) ch (drop d ss))
                (take d ss))"
      using fp bd b a1 a2 by (simp add: m)
    have f3: "fits i (Node sb (Node (Node Null ch (drop d ss)) Null (drop d str @ [nul]))
                (take d ss))"
      using fp bd b a1 a2 by (simp add: m)
    from fr f f1 f2 f3 show "fits i (snd (radix_trie_insert sg al root str))"
      unfolding insert_eq_split [OF split(2,3,4,5,7,10,11), of al]
      by (simp add: fits_relink [of i pre "Node sb X (take d ss)" for X] del: fits.simps)
  qed
next
  case (descend al root str pre sb ch ss rest)
  obtain res ch' where r: "radix_trie_insert sg al ch rest = (res, ch')"
    by (cases "radix_trie_insert sg al ch rest")
  show ?case
  proof (intro allI impI)
    fix i
    assume f: "fits i root" and b: "i + length str + 1 < 2 ^ 32"
    from fits_lsfind [OF descend(3) f]
    have fp: "fits i (Node sb ch ss)" and fr: "fits i (relink pre Null)" .
    from b descend(6) have "i + length ss + length rest + 1 < 2 ^ 32" by simp
    with descend(13) fp r have "fits (i + length ss) ch'" by simp
    with fp fr show "fits i (snd (radix_trie_insert sg al root str))"
      by (simp add: insert_eq_descend [OF descend(3,4,5,6)] r
          fits_relink [of i pre "Node sb ch' ss"])
  qed
qed

text \<open>
  The induction over the rounds of the loop once more, for a tree whose lengths fit, with
  the number of bytes above the sibling list the round walks.
\<close>

lemma insert_induct_fits [consumes 3, case_names suffix found split descend]:
  assumes "invar sg root" and "nul \<notin> set str" and "fits i root"
    and suffix: "\<And>i (al :: alloc) root str pre pos.
      invar sg root \<Longrightarrow> nul \<notin> set str \<Longrightarrow>
      radix_trie_lsfind sg root (str_at str 0) = (pre, pos) \<Longrightarrow>
      pos = Null \<or> char_val sg (str_at str 0) < char_val sg (substr pos ! 0) \<Longrightarrow>
      fits i root \<Longrightarrow> P i al root str"
    and found: "\<And>i (al :: alloc) root str pre sb.
      invar sg root \<Longrightarrow> nul \<notin> set str \<Longrightarrow>
      radix_trie_lsfind sg root (str_at str 0) = (pre, Node sb Null (str @ [nul])) \<Longrightarrow>
      radix_trie_diff (Node sb Null (str @ [nul])) str = length str \<Longrightarrow>
      fits i root \<Longrightarrow> P i al root str"
    and split: "\<And>i (al :: alloc) root str pre sb ch ss d.
      invar sg root \<Longrightarrow> nul \<notin> set str \<Longrightarrow>
      radix_trie_lsfind sg root (str_at str 0) = (pre, Node sb ch ss) \<Longrightarrow>
      ss ! 0 = str_at str 0 \<Longrightarrow>
      d = radix_trie_diff (Node sb ch ss) str \<Longrightarrow> 0 < d \<Longrightarrow> d < length ss \<Longrightarrow> d \<le> length str \<Longrightarrow>
      take d ss = take d str \<Longrightarrow> ss ! d \<noteq> str_at str d \<Longrightarrow>
      fits i root \<Longrightarrow> P i al root str"
    and descend: "\<And>i (al :: alloc) root str pre sb ch ss rest.
      invar sg root \<Longrightarrow> nul \<notin> set str \<Longrightarrow>
      radix_trie_lsfind sg root (str_at str 0) = (pre, Node sb ch ss) \<Longrightarrow>
      ss ! 0 = str_at str 0 \<Longrightarrow>
      radix_trie_diff (Node sb ch ss) str = length ss \<Longrightarrow> str = ss @ rest \<Longrightarrow>
      ss \<noteq> [] \<Longrightarrow> nul \<notin> set ss \<Longrightarrow> invar sg ch \<Longrightarrow> nul \<notin> set rest \<Longrightarrow>
      fits i root \<Longrightarrow> fits i (Node sb ch ss) \<Longrightarrow> P (i + length ss) al ch rest \<Longrightarrow>
      P i al root str"
  shows "P i al root str"
proof -
  from assms(1,2) have "\<forall>i. fits i root \<longrightarrow> P i al root str"
  proof (induction al root str rule: insert_induct_invar)
    case (suffix al root str pre pos)
    from assms(4) [OF suffix] show ?case by simp
  next
    case (found al root str pre sb)
    from assms(5) [OF found] show ?case by simp
  next
    case (split al root str pre sb ch ss d)
    from assms(6) [OF split] show ?case by simp
  next
    case (descend al root str pre sb ch ss rest)
    show ?case
    proof (intro allI impI)
      fix i
      assume f: "fits i root"
      from fits_lsfind(1) [OF descend(3) f] have fp: "fits i (Node sb ch ss)" .
      with descend(11) have "P (i + length ss) al ch rest" by simp
      from assms(7) [OF descend(1-10) f fp this] show "P i al root str" .
    qed
  qed
  with assms(3) show ?thesis by simp
qed

section \<open>The strings of a tree are sorted\<close>

text \<open>The first bytes of the nodes of a sibling list.\<close>

fun heads :: "radix_trie \<Rightarrow> char list" where
  "heads Null = []"
| "heads (Node sb ch ss) = ss ! 0 # heads sb"

lemma strings_hd:
  "invar sg t \<Longrightarrow> x \<in> set (strings t) \<Longrightarrow> x \<noteq> [] \<and> hd x \<in> set (heads t)"
proof (induction t)
  case Null
  then show ?case by simp
next
  case (Node sb ch ss)
  from Node.prems(1) have "ss \<noteq> []" by simp
  then have "hd ss = ss ! 0" by (simp add: hd_conv_nth)
  with Node \<open>ss \<noteq> []\<close> show ?case by (auto split: if_splits)
qed

lemma heads_gt:
  "invar sg (Node sb ch ss) \<Longrightarrow> h \<in> set (heads sb) \<Longrightarrow> char_val sg (ss ! 0) < char_val sg h"
proof (induction sb arbitrary: ch ss)
  case Null
  then show ?case by simp
next
  case (Node sb' ch' ss')
  show ?case
  proof (cases "h = ss' ! 0")
    case True
    with Node.prems(1) show ?thesis by simp
  next
    case False
    with Node.prems(2) have "h \<in> set (heads sb')" by simp
    from Node.IH(1) [OF _ this, of ch' ss'] Node.prems(1)
    show ?thesis by simp
  qed
qed

lemma lex_less_append: "lex_less v (p @ a) (p @ b) = lex_less v a b"
  by (induction p) auto

lemma lex_less_hd: "a \<noteq> [] \<Longrightarrow> b \<noteq> [] \<Longrightarrow> v (hd a) < v (hd b) \<Longrightarrow> lex_less v a b"
  by (cases a; cases b) auto

lemma lex_less_irrefl: "\<not> lex_less v a a"
  by (induction a) auto

lemma strings_sorted: "invar sg t \<Longrightarrow> sorted_wrt (lex_less (char_val sg)) (strings t)"
proof (induction t)
  case Null
  then show ?case by simp
next
  case (Node sb ch ss)
  from Node.prems have ne: "ss \<noteq> []" and isb: "invar sg sb" and ich: "invar sg ch" by simp_all
  let ?here = "(if terminal ss then [ss] else []) @ map ((@) ss) (strings ch)"
  have s1: "sorted_wrt (lex_less (char_val sg)) ?here"
    using Node.IH(2) [OF ich] Node.prems
    by (auto simp: sorted_wrt_map lex_less_append)
  have cross: "lex_less (char_val sg) x y" if "x \<in> set ?here" "y \<in> set (strings sb)" for x y
  proof -
    from that(1) ne have x: "x \<noteq> []" "hd x = ss ! 0"
      by (auto simp: hd_conv_nth hd_append split: if_splits)
    from strings_hd [OF isb that(2)] have y: "y \<noteq> []" "hd y \<in> set (heads sb)" by simp_all
    from heads_gt [OF Node.prems y(2)] x(2)
    have "char_val sg (hd x) < char_val sg (hd y)" by simp
    from lex_less_hd [OF x(1) y(1)] this show ?thesis by blast
  qed
  have "strings (Node sb ch ss) = ?here @ strings sb" by simp
  moreover have "sorted_wrt (lex_less (char_val sg)) (?here @ strings sb)"
    using s1 Node.IH(1) [OF isb] cross by (subst sorted_wrt_append) blast
  ultimately show ?case by simp
qed

lemma sorted_wrt_irrefl_distinct:
  "(\<And>x. \<not> P x x) \<Longrightarrow> sorted_wrt P xs \<Longrightarrow> distinct xs"
  by (induction xs) auto

lemma strings_distinct: "invar sg t \<Longrightarrow> distinct (strings t)"
  using sorted_wrt_irrefl_distinct [of "lex_less (char_val sg)" "strings t"]
    strings_sorted [of sg t] lex_less_irrefl by blast

text \<open>Each string of a tree ends with the terminator and has no other.\<close>

lemma terminal_last: "ss \<noteq> [] \<Longrightarrow> terminal ss = (last ss = nul)"
  by (simp add: terminal_def last_conv_nth)

lemma nonterminal_nonul:
  assumes "ss \<noteq> []" "nul \<notin> set (butlast ss)" "\<not> terminal ss"
  shows "nul \<notin> set ss"
proof -
  from assms(1) have "ss = butlast ss @ [last ss]" by simp
  then have "set ss = insert (last ss) (set (butlast ss))"
    by (metis Un_insert_right append_Nil2 list.simps(15) set_append)
  with assms terminal_last [OF assms(1)] show ?thesis by auto
qed

lemma strings_form:
  "invar sg t \<Longrightarrow> x \<in> set (strings t) \<Longrightarrow> x \<noteq> [] \<and> last x = nul \<and> nul \<notin> set (butlast x)"
proof (induction t arbitrary: x)
  case Null
  then show ?case by simp
next
  case (Node sb ch ss)
  from Node.prems(1) have ne: "ss \<noteq> []" and nb: "nul \<notin> set (butlast ss)"
    and isb: "invar sg sb" and ich: "invar sg ch" by simp_all
  consider (here) "terminal ss" "x = ss"
    | (below) y where "\<not> terminal ss" "y \<in> set (strings ch)" "x = ss @ y"
    | (sibling) "x \<in> set (strings sb)"
    using Node.prems by (auto split: if_splits)
  then show ?case
  proof cases
    case here
    with ne nb terminal_last [OF ne] show ?thesis by simp
  next
    case below
    from Node.IH(2) [OF ich below(2)] have y: "y \<noteq> []" "last y = nul" "nul \<notin> set (butlast y)"
      by simp_all
    from nonterminal_nonul [OF ne nb below(1)] y below(3) show ?thesis
      by (simp add: butlast_append)
  next
    case sibling
    from Node.IH(1) [OF isb this] show ?thesis .
  qed
qed

lemma strings_snoc:
  assumes "invar sg t" "x \<in> set (strings t)"
  shows "x = butlast x @ [nul]" and "nul \<notin> set (butlast x)"
  using strings_form [OF assms] append_butlast_last_id [of x] by simp_all

section \<open>Where a string is, if it is in the tree\<close>

lemma heads_relink_Null:
  "h \<in> set (heads (relink pre Null)) \<Longrightarrow> \<exists>ch ss. (ch, ss) \<in> set pre \<and> h = ss ! 0"
proof (induction pre)
  case Nil
  then show ?case by simp
next
  case (Cons a pre)
  obtain ch ss where a: "a = (ch, ss)" by (cases a)
  show ?case
  proof (cases "h = ss ! 0")
    case True
    with a show ?thesis by auto
  next
    case False
    with Cons.prems a have "h \<in> set (heads (relink pre Null))" by simp
    from Cons.IH [OF this] show ?thesis by auto
  qed
qed

lemma strings_own: "strings (Node sb ch ss) = strings (Node Null ch ss) @ strings sb"
  by simp

text \<open>
  A string with first byte \<open>c\<close> can only be below the node at the position
  \<^verbatim>\<open>radix_trie_lsfind\<close> returns for \<open>c\<close>.
\<close>

lemma strings_at_pos:
  assumes inv: "invar sg root" and ls: "radix_trie_lsfind sg root c = (pre, pos)"
    and k: "k \<noteq> []" "hd k = c"
  shows "k \<in> set (strings root) \<longleftrightarrow>
         (\<exists>sb ch ss. pos = Node sb ch ss \<and> ss ! 0 = c \<and> k \<in> set (strings (Node Null ch ss)))"
proof -
  from lsfind_relink [OF ls] inv have ir: "invar sg (relink pre pos)" by simp
  then have ipre: "invar sg (relink pre Null)" and ipos: "invar sg pos"
    by (simp_all add: invar_relink [of sg pre pos])
  have root: "strings root = strings (relink pre Null) @ strings pos"
    using lsfind_relink [OF ls] strings_relink [of pre pos] by simp
  have npre: "k \<notin> set (strings (relink pre Null))"
  proof
    assume "k \<in> set (strings (relink pre Null))"
    from strings_hd [OF ipre this] k(2) have "c \<in> set (heads (relink pre Null))" by simp
    from heads_relink_Null [OF this] obtain ch ss where "(ch, ss) \<in> set pre" "c = ss ! 0" by blast
    with lsfind_pre_less [OF ls this(1)] show False by simp
  qed
  show ?thesis
  proof (cases pos)
    case Null
    with root npre show ?thesis by simp
  next
    case (Node sb ch ss)
    from ipos Node have ne: "ss \<noteq> []" and isb: "invar sg sb"
      and iown: "invar sg (Node Null ch ss)" by simp_all
    have nsb: "k \<notin> set (strings sb)"
    proof
      assume "k \<in> set (strings sb)"
      from strings_hd [OF isb this] k(2) have "c \<in> set (heads sb)" by simp
      from heads_gt [OF _ this, of sg ch ss] ipos Node
      have "char_val sg (ss ! 0) < char_val sg c" by simp
      with lsfind_not_less [OF ls] Node show False by simp
    qed
    have "k \<in> set (strings (Node Null ch ss)) \<Longrightarrow> ss ! 0 = c"
    proof -
      assume "k \<in> set (strings (Node Null ch ss))"
      from strings_hd [OF iown this] k(2) show "ss ! 0 = c" by simp
    qed
    then have c: "k \<in> set (strings (Node Null ch ss)) \<longleftrightarrow>
        ss ! 0 = c \<and> k \<in> set (strings (Node Null ch ss))" by blast
    have "strings root = strings (relink pre Null) @ strings (Node Null ch ss) @ strings sb"
      using root Node strings_own [of sb ch ss] by (simp only:)
    then have "k \<in> set (strings root) \<longleftrightarrow> k \<in> set (strings (Node Null ch ss))"
      using npre nsb by (simp only: set_append Un_iff) blast
    with c Node show ?thesis by (simp only: radix_trie.inject) blast
  qed
qed

lemma snoc_nul_hd: "hd (str @ [nul]) = str_at str 0"
  by (cases str) (auto simp: str_at_def)

text \<open>Whether \<open>str\<close> is in the tree, in each of the four cases of a walk.\<close>

lemma member_suffix:
  assumes "invar sg root" "radix_trie_lsfind sg root (str_at str 0) = (pre, pos)"
    "pos = Null \<or> char_val sg (str_at str 0) < char_val sg (substr pos ! 0)"
  shows "str @ [nul] \<notin> set (strings root)"
proof
  assume "str @ [nul] \<in> set (strings root)"
  with strings_at_pos [OF assms(1,2), of "str @ [nul]"] snoc_nul_hd [of str]
  obtain sb ch ss where "pos = Node sb ch ss" "ss ! 0 = str_at str 0" by auto
  with assms(3) show False by simp
qed

lemma member_found:
  assumes "invar sg root" "radix_trie_lsfind sg root (str_at str 0) = (pre, Node sb Null (str @ [nul]))"
  shows "str @ [nul] \<in> set (strings root)"
  using lsfind_relink [OF assms(2)] strings_relink [of pre "Node sb Null (str @ [nul])"]
  by (simp add: terminal_snoc)

lemma prefix_snoc_nth:
  assumes "str @ [nul] = ss @ y" "i < length ss"
  shows "ss ! i = str_at str i"
proof -
  from assms have "length ss \<le> Suc (length str)"
    by (metis le_add1 length_append length_append_singleton)
  with assms(2) have i: "i \<le> length str" by simp
  from assms(2) have "ss ! i = (ss @ y) ! i" by (simp add: nth_append)
  also have "\<dots> = (str @ [nul]) ! i" using assms(1) by simp
  also have "\<dots> = str_at str i" by (rule snoc_nul_nth [OF i])
  finally show ?thesis .
qed

lemma not_in_pre:
  assumes inv: "invar sg root" and ls: "radix_trie_lsfind sg root c = (pre, pos)"
    and k: "k \<noteq> []" "hd k = c"
  shows "k \<notin> set (strings (relink pre Null))"
proof
  assume a: "k \<in> set (strings (relink pre Null))"
  from lsfind_relink [OF ls] inv have "invar sg (relink pre pos)" by simp
  then have "invar sg (relink pre Null)" by (simp add: invar_relink [of sg pre pos])
  from strings_hd [OF this a] k(2) have "c \<in> set (heads (relink pre Null))" by simp
  from heads_relink_Null [OF this] obtain ch ss where "(ch, ss) \<in> set pre" "c = ss ! 0" by blast
  with lsfind_pre_less [OF ls this(1)] show False by simp
qed

lemma not_in_sibs:
  assumes inv: "invar sg root" and ls: "radix_trie_lsfind sg root c = (pre, Node sb ch ss)"
    and k: "k \<noteq> []" "hd k = c"
  shows "k \<notin> set (strings sb)"
proof
  assume a: "k \<in> set (strings sb)"
  from invar_lsfind [OF ls inv] have ip: "invar sg (Node sb ch ss)" .
  then have "invar sg sb" by simp
  from strings_hd [OF this a] k(2) have "c \<in> set (heads sb)" by simp
  from heads_gt [OF ip this] lsfind_not_less [OF ls] show False by simp
qed

lemma member_split:
  assumes "invar sg root" "radix_trie_lsfind sg root (str_at str 0) = (pre, Node sb ch ss)"
    "d < length ss" "ss ! d \<noteq> str_at str d"
  shows "str @ [nul] \<notin> set (strings root)"
proof
  assume "str @ [nul] \<in> set (strings root)"
  with strings_at_pos [OF assms(1,2), of "str @ [nul]"] snoc_nul_hd [of str]
  have "str @ [nul] \<in> set (strings (Node Null ch ss))" by simp
  then obtain y where "str @ [nul] = ss @ y" by (auto split: if_splits)
  from prefix_snoc_nth [OF this assms(3)] assms(4) show False by simp
qed

lemma member_descend:
  assumes "invar sg root" "radix_trie_lsfind sg root (str_at str 0) = (pre, Node sb ch ss)"
    "ss ! 0 = str_at str 0" "str = ss @ rest" "ss \<noteq> []" "nul \<notin> set ss"
  shows "str @ [nul] \<in> set (strings root) \<longleftrightarrow> rest @ [nul] \<in> set (strings ch)"
proof -
  from not_terminal [OF assms(5,6)] have "strings (Node Null ch ss) = map ((@) ss) (strings ch)"
    by simp
  moreover have "str @ [nul] = ss @ rest @ [nul]" using assms(4) by simp
  ultimately have "str @ [nul] \<in> set (strings (Node Null ch ss)) \<longleftrightarrow>
      rest @ [nul] \<in> set (strings ch)" by auto
  with strings_at_pos [OF assms(1,2), of "str @ [nul]"] snoc_nul_hd [of str] assms(3)
  show ?thesis by simp
qed

section \<open>Lookup\<close>

lemma diff_zero: "ss ! 0 \<noteq> str_at str 0 \<Longrightarrow> radix_trie_diff (Node sb ch ss) str = 0"
  unfolding radix_trie_diff_def by (subst diff_loop.simps) simp

lemma lookup_eq_suffix:
  assumes "invar sg root" "radix_trie_lsfind sg root (str_at str 0) = (pre, pos)"
    "pos = Null \<or> char_val sg (str_at str 0) < char_val sg (substr pos ! 0)"
  shows "\<not> radix_trie_lookup sg root str"
proof (cases pos)
  case Null
  with assms(2) show ?thesis by (subst radix_trie_lookup.simps) simp
next
  case (Node sb ch ss)
  with assms(3) have ne: "ss ! 0 \<noteq> str_at str 0" by auto
  from invar_lsfind [OF assms(2,1)] Node have "ss \<noteq> []" by simp
  with assms(2) Node ne diff_zero [OF ne, of sb ch] show ?thesis
    by (subst radix_trie_lookup.simps) simp
qed

lemma lookup_eq_found:
  assumes "radix_trie_lsfind sg root (str_at str 0) = (pre, Node sb Null (str @ [nul]))"
    "radix_trie_diff (Node sb Null (str @ [nul])) str = length str"
  shows "radix_trie_lookup sg root str"
  using assms snoc_nul_nth [of "length str" str]
  by (subst radix_trie_lookup.simps) simp

lemma lookup_eq_split:
  assumes "radix_trie_lsfind sg root (str_at str 0) = (pre, Node sb ch ss)"
    "d = radix_trie_diff (Node sb ch ss) str" "d < length ss" "ss ! d \<noteq> str_at str d"
  shows "\<not> radix_trie_lookup sg root str"
  using assms by (subst radix_trie_lookup.simps) simp

lemma lookup_eq_descend:
  assumes "radix_trie_lsfind sg root (str_at str 0) = (pre, Node sb ch ss)"
    "radix_trie_diff (Node sb ch ss) str = length ss" "str = ss @ rest"
  shows "radix_trie_lookup sg root str = radix_trie_lookup sg ch rest"
proof -
  from assms(3) have "drop (length ss) str = rest" by (metis append_eq_conv_conj)
  with assms(1,2) show ?thesis by (subst radix_trie_lookup.simps) simp
qed

lemma lookup_correct:
  assumes "invar sg root" "nul \<notin> set str"
  shows "radix_trie_lookup sg root str \<longleftrightarrow> str @ [nul] \<in> set (strings root)"
  using assms
proof (induction "[] :: alloc" root str rule: insert_induct_invar)
  case (suffix root str pre pos)
  from lookup_eq_suffix [OF suffix(1,3,4)] member_suffix [OF suffix(1,3,4)] show ?case by simp
next
  case (found root str pre sb)
  from lookup_eq_found [OF found(3,4)] member_found [OF found(1,3)] show ?case by simp
next
  case (split root str pre sb ch ss d)
  from lookup_eq_split [OF split(3,5,7,10)] member_split [OF split(1,3,7,10)] show ?case by simp
next
  case (descend root str pre sb ch ss rest)
  from lookup_eq_descend [OF descend(3,5,6)] member_descend [OF descend(1,3,4,6,7,8)] descend(11)
  show ?case by simp
qed

section \<open>Fusing a parent with its only child\<close>

lemma terminal_append: "cs \<noteq> [] \<Longrightarrow> terminal (ss @ cs) = terminal cs"
  by (simp add: terminal_last)

text \<open>In a tree whose lengths fit, the sum of the two lengths does not wrap.\<close>

lemma fuse_cases:
  assumes "fits i (Node sb ch ss)"
  shows "radix_trie_fuse al (Node sb ch ss) =
     (case ch of
        Null \<Rightarrow> (0, Node sb ch ss)
      | Node csb gch cs \<Rightarrow>
          if csb \<noteq> Null then (0, Node sb ch ss)
          else if \<not> alloc_ok al then (- 1, Node sb ch ss)
          else (0, Node sb gch (ss @ cs)))"
proof (cases ch)
  case Null
  then show ?thesis by (simp add: radix_trie_fuse_def)
next
  case (Node csb gch cs)
  with assms have "length ss + length cs < 2 ^ 32" by simp
  then have "as_unsigned (length ss + length cs) = length ss + length cs"
    by (simp add: as_unsigned_def)
  with Node show ?thesis by (simp add: radix_trie_fuse_def Let_def)
qed

lemma strings_fused:
  assumes "\<not> terminal ss" "cs \<noteq> []"
  shows "strings (Node sb gch (ss @ cs)) = strings (Node sb (Node Null gch cs) ss)"
  using assms terminal_append [OF assms(2), of ss] by (simp add: comp_def)

lemma invar_fused:
  assumes "invar sg (Node sb (Node Null gch cs) ss)" "\<not> terminal ss"
  shows "invar sg (Node sb gch (ss @ cs))"
proof -
  from assms(1) have ne: "ss \<noteq> []" and nb: "nul \<notin> set (butlast ss)" and cne: "cs \<noteq> []"
    and cnb: "nul \<notin> set (butlast cs)" by simp_all
  from nonterminal_nonul [OF ne nb assms(2)] cnb cne
  have "nul \<notin> set (butlast (ss @ cs))" by (simp add: butlast_append)
  moreover have "(ss @ cs) ! 0 = ss ! 0" using ne by (simp add: nth_append)
  from sib_ok_cong [OF this, of sg sb] assms(1) have "sib_ok sg (ss @ cs) sb" by simp
  ultimately show ?thesis using assms(1) terminal_append [OF cne, of ss] ne by simp
qed

lemma fuse_spec:
  assumes "invar sg (Node sb ch ss)" "\<not> terminal ss" "fits i (Node sb ch ss)"
  shows "invar sg (snd (radix_trie_fuse al (Node sb ch ss)))"
    and "strings (snd (radix_trie_fuse al (Node sb ch ss))) = strings (Node sb ch ss)"
    and "\<exists>ch' ss'. snd (radix_trie_fuse al (Node sb ch ss)) = Node sb ch' ss' \<and> ss' ! 0 = ss ! 0"
    and "fst (radix_trie_fuse al (Node sb ch ss)) = 0 \<or> fst (radix_trie_fuse al (Node sb ch ss)) = - 1"
    and "compressed sb \<Longrightarrow> compressed ch \<Longrightarrow> ch \<noteq> Null \<Longrightarrow>
         fst (radix_trie_fuse al (Node sb ch ss)) = 0 \<Longrightarrow>
         compressed (snd (radix_trie_fuse al (Node sb ch ss)))"
    and "fits i (snd (radix_trie_fuse al (Node sb ch ss)))"
proof -
  have fN: "radix_trie_fuse al (Node sb Null ss) = (0, Node sb Null ss)" if "ch = Null"
    using fuse_cases [OF assms(3), of al] that by simp
  have fC: "radix_trie_fuse al (Node sb (Node csb gch cs) ss) =
      (if csb \<noteq> Null then (0, Node sb (Node csb gch cs) ss)
       else if \<not> alloc_ok al then (- 1, Node sb (Node csb gch cs) ss)
       else (0, Node sb gch (ss @ cs)))" if "ch = Node csb gch cs" for csb gch cs
    using fuse_cases [OF assms(3), of al] that by simp
  note fuse_cases = fN fC
  from assms(1) have ne: "ss \<noteq> []" by simp
  show "fits i (snd (radix_trie_fuse al (Node sb ch ss)))"
  proof (cases ch)
    case Null
    with assms(3) show ?thesis by (simp add: fuse_cases)
  next
    case (Node csb gch cs)
    with assms(3) show ?thesis by (simp add: fuse_cases add.assoc)
  qed
  show "invar sg (snd (radix_trie_fuse al (Node sb ch ss)))"
  proof (cases ch)
    case Null
    with assms(1) show ?thesis by (simp add: fuse_cases)
  next
    case (Node csb gch cs)
    show ?thesis
    proof (cases "csb = Null \<and> alloc_ok al")
      case True
      with assms(1) Node have "invar sg (Node sb (Node Null gch cs) ss)" by simp
      from invar_fused [OF this assms(2)] True Node show ?thesis by (simp add: fuse_cases)
    next
      case False
      with assms(1) Node show ?thesis by (auto simp add: fuse_cases)
    qed
  qed
  show "strings (snd (radix_trie_fuse al (Node sb ch ss))) = strings (Node sb ch ss)"
  proof (cases ch)
    case Null
    then show ?thesis by (simp add: fuse_cases)
  next
    case (Node csb gch cs)
    with assms(1) have "cs \<noteq> []" by simp
    from strings_fused [OF assms(2) this, of sb gch] Node show ?thesis
      by (simp add: fuse_cases del: strings.simps)
  qed
  show "\<exists>ch' ss'. snd (radix_trie_fuse al (Node sb ch ss)) = Node sb ch' ss' \<and> ss' ! 0 = ss ! 0"
  proof (cases ch)
    case Null
    then show ?thesis by (simp add: fuse_cases)
  next
    case (Node csb gch cs)
    with ne show ?thesis by (simp add: fuse_cases nth_append)
  qed
  show "fst (radix_trie_fuse al (Node sb ch ss)) = 0 \<or> fst (radix_trie_fuse al (Node sb ch ss)) = - 1"
    by (simp add: radix_trie_fuse_def Let_def)
  show "compressed (snd (radix_trie_fuse al (Node sb ch ss)))"
    if "compressed sb" "compressed ch" "ch \<noteq> Null" "fst (radix_trie_fuse al (Node sb ch ss)) = 0"
  proof (cases ch)
    case Null
    with that show ?thesis by simp
  next
    case (Node csb gch cs)
    with assms(1) have "cs \<noteq> []" by simp
    from terminal_append [OF this, of ss] that Node show ?thesis
      by (auto simp: fuse_cases split: if_splits)
  qed
qed

section \<open>The cases of a deletion\<close>

lemma delete_eq_suffix:
  assumes "invar sg root" "radix_trie_lsfind sg root (str_at str 0) = (pre, pos)"
    "pos = Null \<or> char_val sg (str_at str 0) < char_val sg (substr pos ! 0)"
  shows "radix_trie_delete_loop sg al root str = (Unmatched, root)"
proof (cases pos)
  case Null
  with assms(2) show ?thesis by (subst radix_trie_delete_loop.simps) simp
next
  case (Node sb ch ss)
  with assms(3) have ne: "ss ! 0 \<noteq> str_at str 0" by auto
  from invar_lsfind [OF assms(2,1)] Node have "ss \<noteq> []" by simp
  with assms(2) Node ne diff_zero [OF ne, of sb ch] show ?thesis
    by (subst radix_trie_delete_loop.simps) simp
qed

lemma delete_eq_found:
  assumes "radix_trie_lsfind sg root (str_at str 0) = (pre, Node sb Null (str @ [nul]))"
    "radix_trie_diff (Node sb Null (str @ [nul])) str = length str"
  shows "radix_trie_delete_loop sg al root str = (Unlinked, relink pre sb)"
  using assms snoc_nul_nth [of "length str" str]
  by (subst radix_trie_delete_loop.simps) simp

lemma delete_eq_split:
  assumes "radix_trie_lsfind sg root (str_at str 0) = (pre, Node sb ch ss)"
    "d = radix_trie_diff (Node sb ch ss) str" "d < length ss" "ss ! d \<noteq> str_at str d"
  shows "radix_trie_delete_loop sg al root str = (Unmatched, root)"
  using assms by (subst radix_trie_delete_loop.simps) simp

lemma delete_eq_descend:
  assumes "radix_trie_lsfind sg root (str_at str 0) = (pre, Node sb ch ss)"
    "radix_trie_diff (Node sb ch ss) str = length ss" "str = ss @ rest"
  shows "radix_trie_delete_loop sg al root str =
           (case radix_trie_delete_loop sg al ch rest of
              (Unlinked, ch') \<Rightarrow>
                (case radix_trie_fuse al (Node sb ch' ss) of
                   (res, parent') \<Rightarrow> (Finished res, relink pre parent'))
            | (st, ch') \<Rightarrow> (st, relink pre (Node sb ch' ss)))"
proof -
  from assms(3) have "drop (length ss) str = rest" by (metis append_eq_conv_conj)
  with assms(1,2) show ?thesis by (subst radix_trie_delete_loop.simps) simp
qed

section \<open>What a deletion does\<close>

lemma removeAll_map_append:
  "removeAll (p @ x) (map ((@) p) xs) = map ((@) p) (removeAll x xs)"
  by (induction xs) auto

lemma delete_loop_spec:
  assumes "invar sg root" "nul \<notin> set str" "fits i root"
  shows "fits i (snd (radix_trie_delete_loop sg al root str)) \<and>
         invar sg (snd (radix_trie_delete_loop sg al root str)) \<and>
         strings (snd (radix_trie_delete_loop sg al root str)) =
           removeAll (str @ [nul]) (strings root) \<and>
         (fst (radix_trie_delete_loop sg al root str) = Unmatched \<longrightarrow>
            snd (radix_trie_delete_loop sg al root str) = root \<and>
            str @ [nul] \<notin> set (strings root)) \<and>
         (fst (radix_trie_delete_loop sg al root str) \<noteq> Unmatched \<longrightarrow>
            str @ [nul] \<in> set (strings root)) \<and>
         (fst (radix_trie_delete_loop sg al root str) = Unlinked \<longrightarrow>
            Suc (nsibs (snd (radix_trie_delete_loop sg al root str))) = nsibs root \<and>
            (compressed root \<longrightarrow> compressed (snd (radix_trie_delete_loop sg al root str)))) \<and>
         (\<forall>res. fst (radix_trie_delete_loop sg al root str) = Finished res \<longrightarrow>
            nsibs (snd (radix_trie_delete_loop sg al root str)) = nsibs root \<and>
            (res = 0 \<or> res = - 1) \<and>
            (compressed root \<longrightarrow> res = 0 \<longrightarrow>
               compressed (snd (radix_trie_delete_loop sg al root str))))"
  using assms
proof (induction i al root str rule: insert_induct_fits)
  case (suffix i al root str pre pos)
  from member_suffix [OF suffix(1,3,4)] suffix(1,5) show ?case
    by (simp add: delete_eq_suffix [OF suffix(1,3,4)])
next
  case (split i al root str pre sb ch ss d)
  from member_split [OF split(1,3,7,10)] split(1,11) show ?case
    by (simp add: delete_eq_split [OF split(3,5,7,10)])
next
  case (found i al root str pre sb)
  let ?k = "str @ [nul]"
  have k: "?k \<noteq> []" "hd ?k = str_at str 0" by (simp_all add: snoc_nul_hd)
  from lsfind_relink [OF found(3)]
  have root: "root = relink pre (Node sb Null ?k)" by simp
  then have sroot: "strings root = strings (relink pre Null) @ [?k] @ strings sb"
    using strings_relink [of pre "Node sb Null ?k"] by (simp add: terminal_snoc)
  have "removeAll ?k (strings root) = strings (relink pre Null) @ strings sb"
    unfolding sroot using not_in_pre [OF found(1,3) k] not_in_sibs [OF found(1,3) k] by simp
  then have s: "strings (relink pre sb) = removeAll ?k (strings root)"
    using strings_relink [of pre sb] by simp
  from invar_relink_unlink [of sg pre sb Null ?k] found(1) root
  have i: "invar sg (relink pre sb)" by simp
  have n: "Suc (nsibs (relink pre sb)) = nsibs root"
    unfolding root by (simp add: nsibs_relink)
  have c: "compressed root \<longrightarrow> compressed (relink pre sb)"
    unfolding root by (simp add: compressed_relink [of pre sb]
        compressed_relink [of pre "Node sb Null ?k"])
  from fits_lsfind [OF found(3,5)] have "fits i (relink pre sb)"
    by (simp add: fits_relink [of i pre sb])
  with s i n c member_found [OF found(1,3)] show ?case
    by (simp add: delete_eq_found [OF found(3,4)])
next
  case (descend i al root str pre sb ch ss rest)
  let ?k = "str @ [nul]"
  have k: "?k \<noteq> []" "hd ?k = str_at str 0" by (simp_all add: snoc_nul_hd)
  have kr: "?k = ss @ rest @ [nul]" using descend(6) by simp
  from not_terminal [OF descend(7,8)] have nt: "\<not> terminal ss" .
  from lsfind_relink [OF descend(3)] have root: "root = relink pre (Node sb ch ss)" by simp
  have ir: "invar sg (relink pre (Node sb ch ss))" using descend(1) root by simp
  from invar_lsfind [OF descend(3,1)] have ip: "invar sg (Node sb ch ss)" .
  have sroot: "strings root = strings (relink pre Null) @ map ((@) ss) (strings ch) @ strings sb"
    unfolding root using strings_relink [of pre "Node sb ch ss"] nt by simp
  have rem: "removeAll ?k (strings root) =
      strings (relink pre Null) @ map ((@) ss) (removeAll (rest @ [nul]) (strings ch)) @ strings sb"
    unfolding sroot
    using not_in_pre [OF descend(1,3) k] not_in_sibs [OF descend(1,3) k]
      removeAll_map_append [of ss "rest @ [nul]" "strings ch"] kr
    by simp
  have nroot: "nsibs root = length pre + Suc (nsibs sb)"
    unfolding root by (simp add: nsibs_relink)
  have croot: "compressed root \<Longrightarrow>
      compressed (relink pre Null) \<and> compressed sb \<and> compressed ch \<and> 2 \<le> nsibs ch"
    unfolding root using nt two_sibs [of ch]
    by (simp add: compressed_relink [of pre "Node sb ch ss"])
  note mem = member_descend [OF descend(1,3,4,6,7,8)]
  obtain st ch' where r: "radix_trie_delete_loop sg al ch rest = (st, ch')"
    by (cases "radix_trie_delete_loop sg al ch rest")
  note IH = descend(13) [unfolded r fst_conv snd_conv]
  from IH have ich: "invar sg ch'"
    and sch: "strings ch' = removeAll (rest @ [nul]) (strings ch)" by simp_all
  from ip ich nt have ix: "invar sg (Node sb ch' ss)" by simp
  from IH have fch: "fits (i + length ss) ch'" by simp
  with descend(12) have fx: "fits i (Node sb ch' ss)" by simp
  from fits_lsfind(2) [OF descend(3,11)] have fr: "fits i (relink pre Null)" .
  have sx: "strings (relink pre Null) @ strings (Node sb ch' ss) = removeAll ?k (strings root)"
    unfolding rem using sch nt by simp
  show ?case
  proof (cases st)
    case Unmatched
    with IH have "ch' = ch" "rest @ [nul] \<notin> set (strings ch)" by simp_all
    have "radix_trie_delete_loop sg al root str = (Unmatched, relink pre (Node sb ch ss))"
      using Unmatched \<open>ch' = ch\<close> by (simp add: delete_eq_descend [OF descend(3,5,6)] r)
    then have e: "radix_trie_delete_loop sg al root str = (Unmatched, root)"
      using root by simp
    from mem \<open>rest @ [nul] \<notin> set (strings ch)\<close> have "?k \<notin> set (strings root)" by simp
    with descend(1,11) show ?thesis unfolding e by simp
  next
    case (Finished res)
    with IH have f: "rest @ [nul] \<in> set (strings ch)" "nsibs ch' = nsibs ch"
      "res = 0 \<or> res = - 1" "compressed ch \<longrightarrow> res = 0 \<longrightarrow> compressed ch'" by simp_all
    have e: "radix_trie_delete_loop sg al root str = (Finished res, relink pre (Node sb ch' ss))"
      using Finished by (simp add: delete_eq_descend [OF descend(3,5,6)] r)
    from invar_relink_same [OF ir ix] have i: "invar sg (relink pre (Node sb ch' ss))" by simp
    have s: "strings (relink pre (Node sb ch' ss)) = removeAll ?k (strings root)"
      using sx strings_relink [of pre "Node sb ch' ss"] by simp
    have c: "compressed root \<longrightarrow> res = 0 \<longrightarrow> compressed (relink pre (Node sb ch' ss))"
      using croot f(2,4) two_sibs [of ch'] nt
      by (auto simp add: compressed_relink [of pre "Node sb ch' ss"])
    from fx fr have "fits i (relink pre (Node sb ch' ss))"
      by (simp add: fits_relink [of i pre "Node sb ch' ss"])
    with i s c f mem nroot show ?thesis unfolding e by (simp add: nsibs_relink)
  next
    case Unlinked
    with IH have u: "rest @ [nul] \<in> set (strings ch)" "Suc (nsibs ch') = nsibs ch"
      "compressed ch \<longrightarrow> compressed ch'" by simp_all
    obtain res X where fu: "radix_trie_fuse al (Node sb ch' ss) = (res, X)"
      by (cases "radix_trie_fuse al (Node sb ch' ss)")
    have e: "radix_trie_delete_loop sg al root str = (Finished res, relink pre X)"
      using Unlinked fu by (simp add: delete_eq_descend [OF descend(3,5,6)] r)
    from fuse_spec(1) [OF ix nt fx, of al] fu have iX: "invar sg X" by simp
    from fuse_spec(2) [OF ix nt fx, of al] fu have sX: "strings X = strings (Node sb ch' ss)" by simp
    from fuse_spec(3) [OF ix nt fx, of al] fu obtain c2 s2 where X: "X = Node sb c2 s2" "s2 ! 0 = ss ! 0"
      by auto
    from fuse_spec(4) [OF ix nt fx, of al] fu have res: "res = 0 \<or> res = - 1" by simp
    from invar_relink_same [OF ir iX] X have i: "invar sg (relink pre X)" by simp
    have s: "strings (relink pre X) = removeAll ?k (strings root)"
      using sx sX strings_relink [of pre X] by simp
    have n: "nsibs (relink pre X) = nsibs root" using X nroot by (simp add: nsibs_relink)
    have c: "compressed root \<longrightarrow> res = 0 \<longrightarrow> compressed (relink pre X)"
    proof (intro impI)
      assume cr: "compressed root" and r0: "res = 0"
      from croot [OF cr] u have "compressed sb" "compressed ch'" "ch' \<noteq> Null" by auto
      from fuse_spec(5) [OF ix nt fx this, of al] fu r0 have "compressed X" by simp
      with croot [OF cr] show "compressed (relink pre X)"
        by (simp add: compressed_relink [of pre X])
    qed
    from fuse_spec(6) [OF ix nt fx, of al] fu fr have "fits i (relink pre X)"
      by (simp add: fits_relink [of i pre X])
    with i s n c res u(1) mem show ?thesis unfolding e by simp
  qed
qed

lemma fuse_Null: "radix_trie_fuse al Null = (0, Null)"
  by (simp add: radix_trie_fuse_def)

lemma fuse_result: "fst (radix_trie_fuse al t) = 0 \<or> fst (radix_trie_fuse al t) = - 1"
  by (simp add: radix_trie_fuse_def)

lemma delete_spec:
  assumes "invar sg root" "nul \<notin> set str" "fits i root"
  shows "invar sg (snd (radix_trie_delete sg al root str))"
    and "strings (snd (radix_trie_delete sg al root str)) = removeAll (str @ [nul]) (strings root)"
    and "fst (radix_trie_delete sg al root str) = 0 \<or> fst (radix_trie_delete sg al root str) = - 1"
    and "compressed root \<Longrightarrow> fst (radix_trie_delete sg al root str) = 0 \<Longrightarrow>
         compressed (snd (radix_trie_delete sg al root str))"
    and "fits i (snd (radix_trie_delete sg al root str))"
proof -
  obtain st t where r: "radix_trie_delete_loop sg al root str = (st, t)"
    by (cases "radix_trie_delete_loop sg al root str")
  note spec = delete_loop_spec [OF assms, of al, unfolded r fst_conv snd_conv]
  have t: "snd (radix_trie_delete sg al root str) = t"
    by (cases st) (simp_all add: radix_trie_delete_def r)
  from spec show "invar sg (snd (radix_trie_delete sg al root str))" unfolding t by simp
  from spec show "fits i (snd (radix_trie_delete sg al root str))" unfolding t by simp
  from spec show "strings (snd (radix_trie_delete sg al root str)) =
      removeAll (str @ [nul]) (strings root)" unfolding t by simp
  show "fst (radix_trie_delete sg al root str) = 0 \<or> fst (radix_trie_delete sg al root str) = - 1"
    using spec by (cases st) (auto simp add: radix_trie_delete_def r fuse_Null)
  show "compressed (snd (radix_trie_delete sg al root str))"
    if "compressed root" "fst (radix_trie_delete sg al root str) = 0"
    unfolding t using spec that by (cases st) (auto simp add: radix_trie_delete_def r fuse_Null)
qed

text \<open>Without any assumption on the tree: the loop only ever reports the result of a fuse.\<close>

lemma delete_loop_result:
  "fst (radix_trie_delete_loop sg al root str) = Finished res \<Longrightarrow> res = 0 \<or> res = - 1"
proof (induction sg al root str arbitrary: res rule: radix_trie_delete_loop.induct)
  case (1 sg al root str)
  obtain pre pos where ls: "radix_trie_lsfind sg root (str_at str 0) = (pre, pos)"
    by (cases "radix_trie_lsfind sg root (str_at str 0)")
  show ?case
  proof (cases pos)
    case Null
    with "1.prems" ls show ?thesis by (subst (asm) radix_trie_delete_loop.simps) simp
  next
    case (Node sb ch ss)
    let ?d = "radix_trie_diff (Node sb ch ss) str"
    show ?thesis
    proof (cases "?d < length ss")
      case True
      with "1.prems" ls Node show ?thesis
        by (subst (asm) radix_trie_delete_loop.simps) (simp add: Let_def split: if_splits)
    next
      case False
      obtain st ch' where r: "radix_trie_delete_loop sg al ch (drop ?d str) = (st, ch')"
        by (cases "radix_trie_delete_loop sg al ch (drop ?d str)")
      from "1.IH" [OF ls [symmetric] Node refl False] r
      have IH: "\<And>res. st = Finished res \<Longrightarrow> res = 0 \<or> res = - 1" by simp
      from "1.prems" ls Node False r
      have "(case st of
               Unlinked \<Rightarrow> Finished (fst (radix_trie_fuse al (Node sb ch' ss)))
             | _ \<Rightarrow> st) = Finished res"
        by (subst (asm) radix_trie_delete_loop.simps)
          (simp split: delete_state.splits prod.splits)
      with IH fuse_result [of al "Node sb ch' ss"] show ?thesis
        by (cases st) auto
    qed
  qed
qed

lemma delete_result: "fst (radix_trie_delete sg al root str) = 0 \<or>
    fst (radix_trie_delete sg al root str) = - 1"
proof -
  obtain st t where r: "radix_trie_delete_loop sg al root str = (st, t)"
    by (cases "radix_trie_delete_loop sg al root str")
  show ?thesis
  proof (cases st)
    case (Finished res)
    with delete_loop_result [of sg al root str res] r show ?thesis
      by (simp add: radix_trie_delete_def)
  qed (simp_all add: radix_trie_delete_def r fuse_Null)
qed

section \<open>Prefix match\<close>

lemma match_eq_suffix:
  assumes "invar sg root" "radix_trie_lsfind sg root (str_at str 0) = (pre, pos)"
    "pos = Null \<or> char_val sg (str_at str 0) < char_val sg (substr pos ! 0)"
  shows "radix_trie_match sg root str = (pos \<noteq> Null \<and> str_at str 0 = nul)"
proof (cases pos)
  case Null
  with assms(2) show ?thesis by (subst radix_trie_match.simps) simp
next
  case (Node sb ch ss)
  with assms(3) have ne: "ss ! 0 \<noteq> str_at str 0" by auto
  from invar_lsfind [OF assms(2,1)] Node have "ss \<noteq> []" by simp
  with assms(2) Node ne diff_zero [OF ne, of sb ch] show ?thesis
    by (subst radix_trie_match.simps) simp
qed

lemma match_eq_found:
  assumes "nul \<notin> set str"
    "radix_trie_lsfind sg root (str_at str 0) = (pre, Node sb Null (str @ [nul]))"
    "radix_trie_diff (Node sb Null (str @ [nul])) str = length str"
  shows "radix_trie_match sg root str"
  using assms(2,3) by (subst radix_trie_match.simps) (simp add: str_at_def)

lemma match_eq_split:
  assumes "radix_trie_lsfind sg root (str_at str 0) = (pre, Node sb ch ss)"
    "d = radix_trie_diff (Node sb ch ss) str" "d < length ss"
  shows "radix_trie_match sg root str = (str_at str d = nul)"
  using assms by (subst radix_trie_match.simps) simp

lemma match_eq_descend:
  assumes "radix_trie_lsfind sg root (str_at str 0) = (pre, Node sb ch ss)"
    "radix_trie_diff (Node sb ch ss) str = length ss" "str = ss @ rest"
  shows "radix_trie_match sg root str =
           (if str_at rest 0 \<noteq> nul then radix_trie_match sg ch rest else True)"
proof -
  from assms(3) have "drop (length ss) str = rest" by (metis append_eq_conv_conj)
  with assms(1,2) show ?thesis by (subst radix_trie_match.simps) simp
qed

text \<open>In a compressed tree every node has a string below it.\<close>

lemma strings_live:
  "invar sg t \<Longrightarrow> compressed t \<Longrightarrow> t \<noteq> Null \<Longrightarrow> strings t \<noteq> []"
proof (induction t)
  case Null
  then show ?case by simp
next
  case (Node sb ch ss)
  show ?case
  proof (cases "terminal ss")
    case True
    then show ?thesis by simp
  next
    case False
    with Node.prems have "ch \<noteq> Null" "invar sg ch" "compressed ch" by auto
    from Node.IH(2) [OF this(2,3,1)] False show ?thesis by simp
  qed
qed

lemma own_strings_live:
  assumes "invar sg (Node sb ch ss)" "compressed (Node sb ch ss)"
  obtains y where "ss @ y \<in> set (strings (Node Null ch ss))"
proof -
  from assms have "invar sg (Node Null ch ss)" "compressed (Node Null ch ss)" by simp_all
  from strings_live [OF this] have "strings (Node Null ch ss) \<noteq> []" by simp
  from hd_in_set [OF this] obtain k where k: "k \<in> set (strings (Node Null ch ss))" ..
  then have "\<exists>y. k = ss @ y" by (auto split: if_splits)
  with k that show thesis by blast
qed

text \<open>Whether some string of the tree starts with \<open>p\<close>.\<close>

definition has_prefix :: "radix_trie \<Rightarrow> char list \<Rightarrow> bool" where
  "has_prefix t p = (\<exists>k \<in> set (strings t). take (length p) k = p)"

lemma has_prefix_at_pos:
  assumes inv: "invar sg root" and ls: "radix_trie_lsfind sg root (str_at p 0) = (pre, pos)"
    and p: "p \<noteq> []"
  shows "has_prefix root p \<longleftrightarrow>
         (\<exists>sb ch ss. pos = Node sb ch ss \<and> ss ! 0 = str_at p 0 \<and> has_prefix (Node Null ch ss) p)"
proof -
  have hd: "k \<noteq> [] \<and> hd k = str_at p 0" if "take (length p) k = p" for k
  proof -
    from that p have "k \<noteq> []" by auto
    moreover from that p have "hd k = hd p" by (metis hd_take length_greater_0_conv)
    moreover from p have "hd p = str_at p 0" by (simp add: str_at_def hd_conv_nth)
    ultimately show ?thesis by simp
  qed
  show ?thesis
  proof
    assume "has_prefix root p"
    then obtain k where k: "k \<in> set (strings root)" "take (length p) k = p"
      by (auto simp: has_prefix_def)
    from hd [OF k(2)] strings_at_pos [OF inv ls, of k] k(1)
    obtain sb ch ss where "pos = Node sb ch ss" "ss ! 0 = str_at p 0"
      "k \<in> set (strings (Node Null ch ss))" by auto
    with k(2) show "\<exists>sb ch ss. pos = Node sb ch ss \<and> ss ! 0 = str_at p 0 \<and>
        has_prefix (Node Null ch ss) p"
      unfolding has_prefix_def by blast
  next
    assume "\<exists>sb ch ss. pos = Node sb ch ss \<and> ss ! 0 = str_at p 0 \<and> has_prefix (Node Null ch ss) p"
    then obtain sb ch ss k where pos: "pos = Node sb ch ss" "ss ! 0 = str_at p 0"
      and k: "k \<in> set (strings (Node Null ch ss))" "take (length p) k = p"
      unfolding has_prefix_def by blast
    from hd [OF k(2)] strings_at_pos [OF inv ls, of k] pos k(1)
    have "k \<in> set (strings root)" by blast
    with k(2) show "has_prefix root p" unfolding has_prefix_def by blast
  qed
qed

lemma str_at_0_nonul: "nul \<notin> set str \<Longrightarrow> str \<noteq> [] \<Longrightarrow> str_at str 0 \<noteq> nul"
  by (cases str) (auto simp: str_at_def)

lemma match_correct:
  assumes "invar sg root" "nul \<notin> set str"
  shows "compressed root \<longrightarrow> str \<noteq> [] \<longrightarrow> radix_trie_match sg root str = has_prefix root str"
  using assms
proof (induction "[] :: alloc" root str rule: insert_induct_invar)
  case (suffix root str pre pos)
  show ?case
  proof (intro impI)
    assume ne: "str \<noteq> []"
    from match_eq_suffix [OF suffix(1,3,4)] str_at_0_nonul [OF suffix(2) ne]
    have "\<not> radix_trie_match sg root str" by simp
    moreover from has_prefix_at_pos [OF suffix(1,3) ne] suffix(4)
    have "\<not> has_prefix root str" by auto
    ultimately show "radix_trie_match sg root str = has_prefix root str" by simp
  qed
next
  case (found root str pre sb)
  from member_found [OF found(1,3)] have "has_prefix root str"
    unfolding has_prefix_def by (rule bexI [rotated]) simp
  with match_eq_found [OF found(2,3,4)] show ?case by simp
next
  case (split root str pre sb ch ss d)
  show ?case
  proof (intro impI)
    assume c: "compressed root" and ne: "str \<noteq> []"
    from invar_lsfind [OF split(3,1)] have ip: "invar sg (Node sb ch ss)" .
    from compressed_lsfind(1) [OF split(3) c] have cp: "compressed (Node sb ch ss)" .
    note m = match_eq_split [OF split(3,5,7)]
    note hp = has_prefix_at_pos [OF split(1,3) ne]
    show "radix_trie_match sg root str = has_prefix root str"
    proof (cases "d = length str")
      case True
      with split(9) have str: "str = take (length str) ss" by simp
      from own_strings_live [OF ip cp] obtain y where y: "ss @ y \<in> set (strings (Node Null ch ss))" .
      have "take (length str) (ss @ y) = str" using str split(7) True by simp
      with y have "has_prefix (Node Null ch ss) str" unfolding has_prefix_def by blast
      with hp split(4) have "has_prefix root str" by simp
      with m True show ?thesis by (simp add: str_at_def)
    next
      case False
      with split(8) have lt: "d < length str" by simp
      have "\<not> has_prefix (Node Null ch ss) str"
      proof
        assume "has_prefix (Node Null ch ss) str"
        then obtain k where k: "k \<in> set (strings (Node Null ch ss))" "take (length str) k = str"
          unfolding has_prefix_def by blast
        from k(1) obtain y where y: "k = ss @ y" by (auto split: if_splits)
        from k(2) lt have "k ! d = str ! d" by (metis nth_take)
        moreover from y split(7) have "k ! d = ss ! d" by (simp add: nth_append)
        ultimately show False using split(10) lt by (simp add: str_at_def)
      qed
      with hp have "\<not> has_prefix root str" by simp
      moreover from lt split(2) have "str_at str d \<noteq> nul" by (simp add: str_at_nul)
      ultimately show ?thesis using m by simp
    qed
  qed
next
  case (descend root str pre sb ch ss rest)
  show ?case
  proof (intro impI)
    assume c: "compressed root" and ne: "str \<noteq> []"
    from invar_lsfind [OF descend(3,1)] have ip: "invar sg (Node sb ch ss)" .
    from compressed_lsfind(1) [OF descend(3) c] have cp: "compressed (Node sb ch ss)" .
    from not_terminal [OF descend(7,8)] have nt: "\<not> terminal ss" .
    note m = match_eq_descend [OF descend(3,5,6)]
    note hp = has_prefix_at_pos [OF descend(1,3) ne]
    have own: "has_prefix (Node Null ch ss) str = has_prefix ch rest"
      unfolding has_prefix_def using nt descend(6) by simp
    show "radix_trie_match sg root str = has_prefix root str"
    proof (cases "rest = []")
      case True
      from own_strings_live [OF ip cp] obtain y where y: "ss @ y \<in> set (strings (Node Null ch ss))" .
      have "take (length str) (ss @ y) = str" using True descend(6) by simp
      with y have "has_prefix (Node Null ch ss) str" unfolding has_prefix_def by blast
      with hp descend(4) have "has_prefix root str" by simp
      with m True show ?thesis by (simp add: str_at_def)
    next
      case False
      from cp have "compressed ch" by simp
      with descend(11) False have "radix_trie_match sg ch rest = has_prefix ch rest" by simp
      with m str_at_0_nonul [OF descend(10) False] hp descend(4) own show ?thesis by simp
    qed
  qed
qed

text \<open>The empty prefix, where \<^verbatim>\<open>char\<close> is unsigned.\<close>

lemma of_char_nonneg: "0 \<le> (of_char c :: int)"
  using pos_mod_sign [of 256 "of_char c :: int"] by simp

lemma lsfind_unsigned_nul: "radix_trie_lsfind False t nul = ([], t)"
  using of_char_nonneg [of "substr t ! 0"] by (cases t) (auto simp: char_val_def)

lemma match_empty_unsigned:
  assumes "invar False root" "compressed root"
  shows "radix_trie_match False root [] = has_prefix root []"
proof -
  have ls: "radix_trie_lsfind False root (str_at [] 0) = ([], root)"
    by (simp add: str_at_def lsfind_unsigned_nul)
  have "radix_trie_match False root [] = (root \<noteq> Null)"
  proof (cases root)
    case Null
    then show ?thesis by (subst radix_trie_match.simps) (simp add: str_at_def)
  next
    case (Node sb ch ss)
    have "radix_trie_diff (Node sb ch ss) [] = 0"
      using diff_le_str [of "Node sb ch ss" "[]"] by simp
    with Node assms(1) ls show ?thesis
      by (subst radix_trie_match.simps) (simp add: str_at_def)
  qed
  moreover have "has_prefix root [] = (strings root \<noteq> [])"
    unfolding has_prefix_def by (cases "strings root") auto
  moreover have "(strings root \<noteq> []) = (root \<noteq> Null)"
    using strings_live [OF assms] by (cases root) auto
  ultimately show ?thesis by simp
qed

section \<open>Iteration\<close>

text \<open>
  What the specification says of a traversal: the visitor is called on the members in
  order; once it asks to stop no further visit occurs and the call reports early
  termination (1), otherwise every member is visited and the call reports completion (0).
\<close>

fun visit_all :: "(char list \<Rightarrow> 'd \<Rightarrow> int \<times> 'd) \<Rightarrow> 'd \<Rightarrow> char list list \<Rightarrow> int \<times> 'd" where
  "visit_all f d [] = (0, d)"
| "visit_all f d (x # xs) =
     (case f x d of (stop, d') \<Rightarrow> if stop \<noteq> 0 then (1, d') else visit_all f d' xs)"

lemma visit_all_append:
  "visit_all f d (xs @ ys) =
     (case visit_all f d xs of (r, d') \<Rightarrow> if r \<noteq> 0 then (r, d') else visit_all f d' ys)"
  by (induction xs arbitrary: d) (auto split: prod.splits)

lemma visit_all_result: "fst (visit_all f d xs) = 0 \<or> fst (visit_all f d xs) = 1"
  by (induction xs arbitrary: d) (auto split: prod.splits)

lemma c_string_prefix:
  assumes "nul \<notin> set q" "take (Suc (length q)) b = q @ [nul]"
  shows "c_string b = q"
proof -
  have "b = (q @ [nul]) @ drop (Suc (length q)) b"
    using assms(2) by (metis append_take_drop_id)
  then have "c_string b = takeWhile (\<lambda>c. c \<noteq> nul) (q @ nul # drop (Suc (length q)) b)"
    by (simp add: c_string_def)
  also have "\<dots> = q" by (simp add: takeWhile_tail takeWhile_nonul [OF assms(1)])
  finally show ?thesis .
qed

text \<open>The copy of a substring into the buffer, behind a path of which the buffer holds a prefix.\<close>

lemma memcpy_length:
  assumes "length b = n"
  shows "length (memcpy b i ss (minzu (if n > i then n - i else 0) (length ss))) = n"
  using assms by (auto simp: memcpy_def minzu_def)

lemma memcpy_prefix:
  assumes "length b = n" "1 \<le> n" "length p = i"
    "take (min i (n - 1)) b = take (min i (n - 1)) p"
  shows "take (min (i + length ss) (n - 1))
           (memcpy b i ss (minzu (if n > i then n - i else 0) (length ss))) =
         take (min (i + length ss) (n - 1)) (p @ ss)"
proof (cases "i < n - 1")
  case True
  with assms(3,4) have bp: "take i b = p" by simp
  define c where "c = min (n - i) (length ss)"
  define m where "m = min (i + length ss) (n - 1)"
  have cnt: "minzu (if n > i then n - i else 0) (length ss) = c"
    using True by (auto simp: minzu_def c_def)
  have mi: "i \<le> m" "m - i \<le> c" "c \<le> length ss" unfolding m_def c_def using True by auto
  have "take m (memcpy b i ss c) = take m (p @ take c ss @ drop (i + c) b)"
    using bp by (simp add: memcpy_def)
  also have "\<dots> = p @ take (m - i) (take c ss @ drop (i + c) b)"
    using assms(3) mi(1) by simp
  also have "take (m - i) (take c ss @ drop (i + c) b) = take (m - i) (take c ss)"
    using mi(2,3) by simp
  also have "take (m - i) (take c ss) = take (m - i) ss"
    using mi(2) by (simp add: min_def)
  also have "p @ take (m - i) ss = take m (p @ ss)"
    using assms(3) mi(1) by simp
  finally show ?thesis unfolding cnt m_def .
next
  case False
  then have m: "min i (n - 1) = n - 1" "min (i + length ss) (n - 1) = n - 1" by auto
  have "take (n - 1) (memcpy b i ss (minzu (if n > i then n - i else 0) (length ss))) = take (n - 1) b"
    using False assms(1) by (auto simp: memcpy_def minzu_def min_def)
  with assms(3,4) m False show ?thesis by simp
qed

lemma take_take_le: "a \<le> c \<Longrightarrow> take c x = take c y \<Longrightarrow> take a x = take a y"
  by (metis min.absorb1 take_take)

lemma visit_buffer:
  assumes "length b1 = n" "1 \<le> n" "nul \<notin> set full"
    "take (min (Suc (length full)) (n - 1)) b1 = take (min (Suc (length full)) (n - 1)) (full @ [nul])"
  shows "c_string (b1[n - 1 := nul]) = take (n - 1) full"
proof (rule c_string_prefix)
  show "nul \<notin> set (take (n - 1) full)" using assms(3) by (metis in_set_takeD)
  show "take (Suc (length (take (n - 1) full))) (b1[n - 1 := nul]) = take (n - 1) full @ [nul]"
  proof (cases "n - 1 \<le> length full")
    case True
    then have m: "min (Suc (length full)) (n - 1) = n - 1" by simp
    from assms(4) True have t: "take (n - 1) b1 = take (n - 1) full" unfolding m by simp
    have "b1[n - 1 := nul] = take (n - 1) b1 @ nul # drop (Suc (n - 1)) b1"
      using assms(1,2) by (intro upd_conv_take_nth_drop) simp
    moreover have "drop (Suc (n - 1)) b1 = []" using assms(1,2) by simp
    ultimately have "b1[n - 1 := nul] = take (n - 1) full @ [nul]" using t by simp
    moreover have "length (take (n - 1) full) = n - 1" using True by simp
    ultimately show ?thesis by simp
  next
    case False
    then have m: "min (Suc (length full)) (n - 1) = Suc (length full)" by simp
    from assms(4) have "take (Suc (length full)) b1 = full @ [nul]" unfolding m by simp
    moreover have "take (Suc (length full)) (b1[n - 1 := nul]) = take (Suc (length full)) b1"
      using False by simp
    ultimately show ?thesis using False by simp
  qed
qed

lemma iterate_terminal:
  "terminal ss \<Longrightarrow>
   radix_trie_iterate (Node sb ch ss) \<lparr>fn = f, data = d, buf = b, len = n\<rparr> i =
     (case f (c_string ((memcpy b i ss (minzu (if n > i then n - i else 0) (length ss)))
                         [n - 1 := nul])) d of
        (stop, d') \<Rightarrow>
          if stop \<noteq> 0
          then Longjmp \<lparr>fn = f, data = d',
                 buf = (memcpy b i ss (minzu (if n > i then n - i else 0) (length ss)))[n - 1 := nul],
                 len = n\<rparr>
          else (case radix_trie_iterate ch \<lparr>fn = f, data = d',
                   buf = (memcpy b i ss (minzu (if n > i then n - i else 0) (length ss)))[n - 1 := nul],
                   len = n\<rparr> (i + length ss) of
                  Longjmp it \<Rightarrow> Longjmp it
                | Return it \<Rightarrow> radix_trie_iterate sb it i))"
  by (simp add: Let_def terminal_def split: prod.splits)

lemma iterate_nonterminal:
  "\<not> terminal ss \<Longrightarrow>
   radix_trie_iterate (Node sb ch ss) \<lparr>fn = f, data = d, buf = b, len = n\<rparr> i =
     (case radix_trie_iterate ch \<lparr>fn = f, data = d,
              buf = memcpy b i ss (minzu (if n > i then n - i else 0) (length ss)), len = n\<rparr>
            (i + length ss) of
        Longjmp it \<Rightarrow> Longjmp it
      | Return it \<Rightarrow> radix_trie_iterate sb it i)"
  by (simp add: Let_def terminal_def)

text \<open>
  What the callback is given for the strings of a tree that hangs below the path \<open>p\<close>,
  when the buffer has \<open>n\<close> bytes: the first \<open>n - 1\<close> bytes of each.
\<close>

definition seen :: "nat \<Rightarrow> char list \<Rightarrow> radix_trie \<Rightarrow> char list list" where
  "seen n p t = map (\<lambda>k. take (n - 1) (p @ butlast k)) (strings t)"

lemma seen_terminal:
  assumes "invar sg (Node sb ch ss)" "terminal ss"
  shows "seen n p (Node sb ch ss) = take (n - 1) (p @ butlast ss) # seen n p sb"
  using assms by (simp add: seen_def)

lemma seen_nonterminal:
  assumes "invar sg (Node sb ch ss)" "\<not> terminal ss"
  shows "seen n p (Node sb ch ss) = seen n (p @ ss) ch @ seen n p sb"
proof -
  have "take (n - 1) (p @ butlast (ss @ k)) = take (n - 1) ((p @ ss) @ butlast k)"
    if "k \<in> set (strings ch)" for k
  proof -
    from assms(1) have "invar sg ch" by simp
    from strings_form [OF this that] have "k \<noteq> []" by simp
    then show ?thesis by (simp add: butlast_append)
  qed
  then have "map (\<lambda>k. take (n - 1) (p @ butlast k)) (map ((@) ss) (strings ch)) =
      map (\<lambda>k. take (n - 1) ((p @ ss) @ butlast k)) (strings ch)"
    by (simp add: comp_def)
  with assms(2) show ?thesis by (simp add: seen_def)
qed

lemma iterate_spec:
  assumes "invar sg t" "nul \<notin> set p" "length b = n" "1 \<le> n"
    "take (min (length p) (n - 1)) b = take (min (length p) (n - 1)) p"
  shows "\<exists>b'. length b' = n \<and>
           take (min (length p) (n - 1)) b' = take (min (length p) (n - 1)) p \<and>
           radix_trie_iterate t \<lparr>fn = f, data = d, buf = b, len = n\<rparr> (length p) =
             (if fst (visit_all f d (seen n p t)) = 0 then Return else Longjmp)
               \<lparr>fn = f, data = snd (visit_all f d (seen n p t)), buf = b', len = n\<rparr>"
  using assms
proof (induction t arbitrary: p d b)
  case Null
  then show ?case by (simp add: seen_def)
next
  case (Node sb ch ss)
  let ?i = "length p"
  let ?m = "min ?i (n - 1)"
  define b1 where "b1 = memcpy b ?i ss (minzu (if n > ?i then n - ?i else 0) (length ss))"
  have l1: "length b1 = n" unfolding b1_def by (rule memcpy_length [OF Node.prems(3)])
  have p1: "take (min (?i + length ss) (n - 1)) b1 = take (min (?i + length ss) (n - 1)) (p @ ss)"
    unfolding b1_def by (rule memcpy_prefix [OF Node.prems(3,4) refl Node.prems(5)])
  from Node.prems(1) have ne: "ss \<noteq> []" and nb: "nul \<notin> set (butlast ss)"
    and isb: "invar sg sb" and ich: "invar sg ch" by simp_all
  have down: "take ?m x = take ?m p"
    if "take (min (?i + length ss) (n - 1)) x = take (min (?i + length ss) (n - 1)) (p @ ss)" for x
  proof -
    have "?m \<le> min (?i + length ss) (n - 1)" by simp
    from take_take_le [OF this that] show ?thesis by simp
  qed
  show ?case
  proof (cases "terminal ss")
    case True
    with Node.prems(1) have ch: "ch = Null" by simp
    define b2 where "b2 = b1[n - 1 := nul]"
    have l2: "length b2 = n" unfolding b2_def using l1 by simp
    have p2: "take ?m b2 = take ?m p" unfolding b2_def using down [OF p1] by simp
    from ne have ss: "ss = butlast ss @ [last ss]" by simp
    with True terminal_last [OF ne] have ss': "p @ ss = (p @ butlast ss) @ [nul]" by simp
    have nf: "nul \<notin> set (p @ butlast ss)" using Node.prems(2) nb by simp
    have lf: "Suc (length (p @ butlast ss)) = ?i + length ss" using ne by simp
    define vs where "vs = take (n - 1) (p @ butlast ss)"
    have v: "c_string b2 = vs"
      unfolding b2_def vs_def
      using visit_buffer [OF l1 Node.prems(4) nf] p1 unfolding lf ss' by simp
    obtain stop d1 where fv: "f vs d = (stop, d1)" by (cases "f vs d")
    have sn: "seen n p (Node sb ch ss) = vs # seen n p sb"
      unfolding vs_def by (rule seen_terminal [OF Node.prems(1) True])
    note it = iterate_terminal [OF True, of sb ch f d b n ?i, folded b1_def, folded b2_def,
        unfolded v fv ch]
    show ?thesis
    proof (cases "stop = 0")
      case False
      have "radix_trie_iterate (Node sb ch ss) \<lparr>fn = f, data = d, buf = b, len = n\<rparr> ?i =
          Longjmp \<lparr>fn = f, data = d1, buf = b2, len = n\<rparr>"
        unfolding ch it using False by simp
      moreover have "visit_all f d (seen n p (Node sb ch ss)) = (1, d1)"
        unfolding sn using fv False by simp
      ultimately show ?thesis using l2 p2 by auto
    next
      case stop0: True
      from Node.IH(1) [OF isb Node.prems(2) l2 Node.prems(4) p2, of d1]
      obtain b' where b': "length b' = n" "take ?m b' = take ?m p"
        "radix_trie_iterate sb \<lparr>fn = f, data = d1, buf = b2, len = n\<rparr> ?i =
           (if fst (visit_all f d1 (seen n p sb)) = 0 then Return else Longjmp)
             \<lparr>fn = f, data = snd (visit_all f d1 (seen n p sb)), buf = b', len = n\<rparr>"
        by blast
      have "radix_trie_iterate (Node sb ch ss) \<lparr>fn = f, data = d, buf = b, len = n\<rparr> ?i =
          radix_trie_iterate sb \<lparr>fn = f, data = d1, buf = b2, len = n\<rparr> ?i"
        unfolding ch it using stop0 by simp
      moreover have "visit_all f d (seen n p (Node sb ch ss)) = visit_all f d1 (seen n p sb)"
        unfolding sn using fv stop0 by simp
      ultimately show ?thesis using b' by auto
    qed
  next
    case False
    from nonterminal_nonul [OF ne nb False] Node.prems(2) have nf: "nul \<notin> set (p @ ss)" by simp
    have p1': "take (min (length (p @ ss)) (n - 1)) b1 = take (min (length (p @ ss)) (n - 1)) (p @ ss)"
      using p1 by simp
    from Node.IH(2) [OF ich nf l1 Node.prems(4) p1', of d]
    obtain b3 where b3: "length b3 = n"
      "take (min (length (p @ ss)) (n - 1)) b3 = take (min (length (p @ ss)) (n - 1)) (p @ ss)"
      "radix_trie_iterate ch \<lparr>fn = f, data = d, buf = b1, len = n\<rparr> (length (p @ ss)) =
         (if fst (visit_all f d (seen n (p @ ss) ch)) = 0 then Return else Longjmp)
           \<lparr>fn = f, data = snd (visit_all f d (seen n (p @ ss) ch)), buf = b3, len = n\<rparr>"
      by blast
    have p3: "take ?m b3 = take ?m p" using down [of b3] b3(2) by simp
    note sn = seen_nonterminal [OF Node.prems(1) False, of n p]
    obtain r1 d1 where va: "visit_all f d (seen n (p @ ss) ch) = (r1, d1)"
      by (cases "visit_all f d (seen n (p @ ss) ch)")
    note it = iterate_nonterminal [OF False, of sb ch f d b n ?i, folded b1_def]
    show ?thesis
    proof (cases "r1 = 0")
      case r0: False
      have "radix_trie_iterate (Node sb ch ss) \<lparr>fn = f, data = d, buf = b, len = n\<rparr> ?i =
          Longjmp \<lparr>fn = f, data = d1, buf = b3, len = n\<rparr>"
        unfolding it using b3(3) va r0 by simp
      moreover have "visit_all f d (seen n p (Node sb ch ss)) = (r1, d1)"
        unfolding sn visit_all_append va using r0 by simp
      ultimately show ?thesis using b3(1) p3 r0 by auto
    next
      case True
      from Node.IH(1) [OF isb Node.prems(2) b3(1) Node.prems(4) p3, of d1]
      obtain b' where b': "length b' = n" "take ?m b' = take ?m p"
        "radix_trie_iterate sb \<lparr>fn = f, data = d1, buf = b3, len = n\<rparr> ?i =
           (if fst (visit_all f d1 (seen n p sb)) = 0 then Return else Longjmp)
             \<lparr>fn = f, data = snd (visit_all f d1 (seen n p sb)), buf = b', len = n\<rparr>"
        by blast
      have "radix_trie_iterate (Node sb ch ss) \<lparr>fn = f, data = d, buf = b, len = n\<rparr> ?i =
          radix_trie_iterate sb \<lparr>fn = f, data = d1, buf = b3, len = n\<rparr> ?i"
        unfolding it using b3(3) va True by simp
      moreover have "visit_all f d (seen n p (Node sb ch ss)) = visit_all f d1 (seen n p sb)"
        unfolding sn visit_all_append va using True by simp
      ultimately show ?thesis using b' by auto
    qed
  qed
qed

lemma seen_root: "seen n [] t = map (take (n - 1)) (keys t)"
  by (simp add: seen_def keys_def)

lemma foreach_iterate:
  assumes "invar sg t" "length b = n" "1 \<le> n"
  shows "\<exists>b'. length b' = n \<and>
           (case radix_trie_iterate t \<lparr>fn = f, data = d, buf = b, len = n\<rparr> 0 of
              Longjmp it \<Rightarrow> (1, it) | Return it \<Rightarrow> (0, it)) =
           (fst (visit_all f d (map (take (n - 1)) (keys t))),
            \<lparr>fn = f, data = snd (visit_all f d (map (take (n - 1)) (keys t))), buf = b', len = n\<rparr>)"
proof -
  from iterate_spec [OF assms(1) _ assms(2,3), of "[]" f d]
  obtain b' where b': "length b' = n"
    "radix_trie_iterate t \<lparr>fn = f, data = d, buf = b, len = n\<rparr> 0 =
       (if fst (visit_all f d (seen n [] t)) = 0 then Return else Longjmp)
         \<lparr>fn = f, data = snd (visit_all f d (seen n [] t)), buf = b', len = n\<rparr>"
    by auto
  from visit_all_result [of f d "seen n [] t"] b' show ?thesis
    unfolding seen_root by (intro exI [of _ b']) auto
qed

text \<open>\<^verbatim>\<open>radix_trie_foreach\<close> with a buffer of the caller, and with its own.\<close>

lemma foreach_user:
  assumes "invar sg t" "length u = n" "1 \<le> n"
  shows "\<exists>b'. length b' = n \<and>
           radix_trie_foreach sbuf t f d (Some u) n =
           (fst (visit_all f d (map (take (n - 1)) (keys t))),
            \<lparr>fn = f, data = snd (visit_all f d (map (take (n - 1)) (keys t))), buf = b', len = n\<rparr>)"
  using foreach_iterate [OF assms, of f d] assms(3)
  by (simp add: radix_trie_foreach_def)

lemma foreach_default:
  assumes "invar sg t" "length sbuf = RADIX_FORBUFSZ"
  shows "\<exists>b'. length b' = RADIX_FORBUFSZ \<and>
           radix_trie_foreach sbuf t f d None n =
           (fst (visit_all f d (map (take (RADIX_FORBUFSZ - 1)) (keys t))),
            \<lparr>fn = f, data = snd (visit_all f d (map (take (RADIX_FORBUFSZ - 1)) (keys t))),
               buf = b', len = RADIX_FORBUFSZ\<rparr>)"
proof -
  have "1 \<le> RADIX_FORBUFSZ" by (simp add: RADIX_FORBUFSZ_def)
  from foreach_iterate [OF assms this, of f d] this show ?thesis
    by (simp add: radix_trie_foreach_def)
qed

lemma foreach_zero:
  "radix_trie_foreach sbuf t f d (Some u) 0 = (0, \<lparr>fn = f, data = d, buf = u, len = 0\<rparr>)"
  by (simp add: radix_trie_foreach_def)

section \<open>Sequences of calls\<close>

text \<open>
  The strings of the calls are C strings of fewer than \<open>2^32 - 1\<close> bytes: with its
  terminator each fits the field \<^verbatim>\<open>len\<close>.
\<close>

lemma apply_call_invar:
  assumes "invar sg t" "fits 0 t" "nul \<notin> set (call_str c)" "length (call_str c) + 1 < 2 ^ 32"
  shows "invar sg (snd (apply_call sg t c))" and "fits 0 (snd (apply_call sg t c))"
proof -
  show "invar sg (snd (apply_call sg t c))"
    using assms insert_invar [of sg t] delete_spec(1) [of sg t _ 0] by (cases c) simp_all
  show "fits 0 (snd (apply_call sg t c))"
    using assms insert_fits [of sg t "call_str c"] delete_spec(5) [of sg t _ 0]
    by (cases c) simp_all
qed

lemma run_invar:
  "invar sg t \<Longrightarrow> fits 0 t \<Longrightarrow>
   \<forall>c \<in> set cs. nul \<notin> set (call_str c) \<and> length (call_str c) + 1 < 2 ^ 32 \<Longrightarrow>
   invar sg (run sg t cs) \<and> fits 0 (run sg t cs)"
proof (induction cs arbitrary: t)
  case Nil
  then show ?case by simp
next
  case (Cons c cs)
  from Cons.prems(3) have c: "nul \<notin> set (call_str c)" "length (call_str c) + 1 < 2 ^ 32"
    by simp_all
  from Cons.IH [OF apply_call_invar [OF Cons.prems(1,2) c]] Cons.prems(3)
  show ?case by simp
qed

lemma apply_call_compressed:
  assumes "invar sg t" "fits 0 t" "nul \<notin> set (call_str c)" "length (call_str c) + 1 < 2 ^ 32"
    "compressed t" "fst (apply_call sg t c) = 0"
  shows "compressed (snd (apply_call sg t c))"
  using assms insert_compressed [of sg t] delete_spec(4) [of sg t _ 0] by (cases c) simp_all

lemma run_compressed:
  "invar sg t \<Longrightarrow> fits 0 t \<Longrightarrow> compressed t \<Longrightarrow>
   \<forall>c \<in> set cs. nul \<notin> set (call_str c) \<and> length (call_str c) + 1 < 2 ^ 32 \<Longrightarrow>
   \<forall>r \<in> set (results sg t cs). r = 0 \<Longrightarrow> compressed (run sg t cs)"
proof (induction cs arbitrary: t)
  case Nil
  then show ?case by simp
next
  case (Cons c cs)
  from Cons.prems(4) have c: "nul \<notin> set (call_str c)" "length (call_str c) + 1 < 2 ^ 32"
    by simp_all
  from Cons.prems(5) have r: "fst (apply_call sg t c) = 0" by simp
  from Cons.IH [OF apply_call_invar [OF Cons.prems(1,2) c]
      apply_call_compressed [OF Cons.prems(1,2) c Cons.prems(3) r]] Cons.prems(4,5)
  show ?case by simp
qed

lemma compressed_canonical: "compressed t \<Longrightarrow> canonical t"
  by (induction t) auto

section \<open>Members\<close>

lemma keys_iff:
  assumes "invar sg t"
  shows "m \<in> set (keys t) \<longleftrightarrow> m @ [nul] \<in> set (strings t)"
proof
  assume "m \<in> set (keys t)"
  then obtain x where x: "x \<in> set (strings t)" "m = butlast x" by (auto simp: keys_def)
  from strings_snoc(1) [OF assms x(1)] x show "m @ [nul] \<in> set (strings t)" by simp
next
  assume "m @ [nul] \<in> set (strings t)"
  then have "butlast (m @ [nul]) \<in> butlast ` set (strings t)" by (rule imageI)
  then show "m \<in> set (keys t)" by (simp add: keys_def)
qed

lemma keys_nonul: "invar sg t \<Longrightarrow> m \<in> set (keys t) \<Longrightarrow> nul \<notin> set m"
  using strings_snoc(2) [of sg t] by (auto simp: keys_def)

lemma keys_distinct: "invar sg t \<Longrightarrow> distinct (keys t)"
proof -
  assume inv: "invar sg t"
  have "inj_on butlast (set (strings t))"
  proof (rule inj_onI)
    fix x y assume "x \<in> set (strings t)" "y \<in> set (strings t)" "butlast x = butlast y"
    with strings_snoc(1) [OF inv, of x] strings_snoc(1) [OF inv, of y] show "x = y" by metis
  qed
  with strings_distinct [OF inv] show ?thesis by (simp add: keys_def distinct_map)
qed

lemma keys_sorted:
  assumes "invar sg t"
  shows "sorted_wrt (\<lambda>a c. lex_less (char_val sg) (a @ [nul]) (c @ [nul])) (keys t)"
proof -
  have "sorted_wrt (\<lambda>x y. lex_less (char_val sg) (butlast x @ [nul]) (butlast y @ [nul])) (strings t)"
  proof (rule sorted_wrt_mono_rel [OF _ strings_sorted [OF assms]])
    fix x y assume "x \<in> set (strings t)" "y \<in> set (strings t)" "lex_less (char_val sg) x y"
    with strings_snoc(1) [OF assms, of x] strings_snoc(1) [OF assms, of y]
    show "lex_less (char_val sg) (butlast x @ [nul]) (butlast y @ [nul])" by simp
  qed
  then show ?thesis by (simp add: keys_def sorted_wrt_map)
qed

lemma removeAll_butlast:
  "\<forall>x \<in> set xs. x = butlast x @ [nul] \<Longrightarrow>
   map butlast (removeAll (s @ [nul]) xs) = removeAll s (map butlast xs)"
proof (induction xs)
  case Nil
  then show ?case by simp
next
  case (Cons x xs)
  then have "x = butlast x @ [nul]" by simp
  then have e: "x = s @ [nul] \<longleftrightarrow> butlast x = s" by (metis butlast_snoc)
  from Cons have IH: "map butlast (removeAll (s @ [nul]) xs) = removeAll s (map butlast xs)"
    by simp
  show ?case
  proof (cases "x = s @ [nul]")
    case True
    with e IH show ?thesis by simp
  next
    case False
    with e IH show ?thesis by auto
  qed
qed

lemma keys_removeAll:
  assumes "invar sg t" "strings t' = removeAll (s @ [nul]) (strings t)"
  shows "keys t' = removeAll s (keys t)"
  using removeAll_butlast [of "strings t" s] strings_snoc(1) [OF assms(1)] assms(2)
  by (simp add: keys_def)

lemma lookup_keys:
  "invar sg t \<Longrightarrow> nul \<notin> set s \<Longrightarrow> radix_trie_lookup sg t s \<longleftrightarrow> s \<in> set (keys t)"
  by (simp add: lookup_correct keys_iff)

lemma has_prefix_keys:
  assumes "invar sg t" "nul \<notin> set p"
  shows "has_prefix t p \<longleftrightarrow> (\<exists>m \<in> set (keys t). take (length p) m = p)"
proof -
  have e: "take (length p) (m @ [nul]) = p \<longleftrightarrow> take (length p) m = p" for m
  proof (cases "length p \<le> length m")
    case True
    then show ?thesis by simp
  next
    case False
    then have "take (length p) (m @ [nul]) = m @ [nul]" "take (length p) m = m" by simp_all
    with assms(2) False show ?thesis by auto
  qed
  show ?thesis
  proof
    assume "has_prefix t p"
    then obtain k where k: "k \<in> set (strings t)" "take (length p) k = p"
      unfolding has_prefix_def by blast
    from strings_snoc(1) [OF assms(1) k(1)] k(1) keys_iff [OF assms(1), of "butlast k"]
    have "butlast k \<in> set (keys t)" by simp
    moreover from k(2) strings_snoc(1) [OF assms(1) k(1)] e [of "butlast k"]
    have "take (length p) (butlast k) = p" by simp
    ultimately show "\<exists>m \<in> set (keys t). take (length p) m = p" by blast
  next
    assume "\<exists>m \<in> set (keys t). take (length p) m = p"
    then obtain m where m: "m \<in> set (keys t)" "take (length p) m = p" by blast
    with keys_iff [OF assms(1), of m] e [of m] show "has_prefix t p"
      unfolding has_prefix_def by blast
  qed
qed

section \<open>Insertion with enough memory\<close>

lemma insert_succeeds:
  assumes "invar sg root" "nul \<notin> set str"
  shows "fst (radix_trie_insert sg [] root str) = 0"
  using assms
proof (induction "[] :: alloc" root str rule: insert_induct_invar)
  case (suffix root str pre pos)
  then show ?case by (simp add: insert_eq_suffix_gen [OF suffix(3,4)] alloc_ok_def)
next
  case (found root str pre sb)
  then show ?case by (simp add: insert_eq_found [OF found(3,4)])
next
  case (split root str pre sb ch ss d)
  show ?case unfolding insert_eq_split_gen [OF split(3,4,5,7,10), of "[]"]
    by (simp add: alloc_ok_def)
next
  case (descend root str pre sb ch ss rest)
  from descend(11) show ?case
    by (cases "radix_trie_insert sg [] ch rest")
      (simp add: insert_eq_descend [OF descend(3,4,5,6)])
qed

lemma run_inserts:
  "invar sg t \<Longrightarrow> \<forall>s \<in> set xs. nul \<notin> set s \<and> length s + 1 < 2 ^ 32 \<Longrightarrow>
   set (strings (run sg t (map (Insert []) xs))) = set (strings t) \<union> (\<lambda>s. s @ [nul]) ` set xs"
proof (induction xs arbitrary: t)
  case Nil
  then show ?case by simp
next
  case (Cons x xs)
  from Cons.prems have nf: "nul \<notin> set x" and b: "length x + 1 < 2 ^ 32" by simp_all
  from insert_succeeds [OF Cons.prems(1) nf]
  have "fst (radix_trie_insert sg [] t x) = 0" .
  with insert_strings [OF Cons.prems(1) nf b, of "[]"]
  have s: "set (strings (snd (radix_trie_insert sg [] t x))) = insert (x @ [nul]) (set (strings t))"
    by simp
  from insert_invar [OF Cons.prems(1) nf b, of "[]"] Cons.IH [of "snd (radix_trie_insert sg [] t x)"]
    Cons.prems(2) s
  show ?case by auto
qed

section \<open>The order of the members\<close>

lemma char_val_unsigned_nonneg: "0 \<le> char_val False c"
  by (simp add: char_val_def of_char_nonneg)

lemma char_val_nul: "char_val sg nul = 0"
  by (simp add: char_val_def)

text \<open>
  Where \<^verbatim>\<open>char\<close> is unsigned the terminator is the least byte, so the order of the
  strings with their terminators is the order of the strings by raw byte value.
\<close>

lemma lex_less_snoc_unsigned:
  "nul \<notin> set a \<Longrightarrow> lex_less (char_val False) (a @ [nul]) (c @ [nul]) \<Longrightarrow>
   lex_less (char_val False) a c"
proof (induction a arbitrary: c)
  case Nil
  then show ?case by (cases c) simp_all
next
  case (Cons x xs)
  show ?case
  proof (cases c)
    case Nil
    with Cons.prems char_val_unsigned_nonneg [of x] show ?thesis
      by (simp add: char_val_nul)
  next
    case (Cons y ys)
    with Cons.prems Cons.IH [of ys] show ?thesis by auto
  qed
qed

lemma lex_less_cong:
  "\<forall>x \<in> set a \<union> set c. v x = w x \<Longrightarrow> lex_less v a c = lex_less w a c"
proof (induction a arbitrary: c)
  case Nil
  then show ?case by (cases c) simp_all
next
  case (Cons x xs)
  show ?case
  proof (cases c)
    case Nil
    then show ?thesis by simp
  next
    case (Cons y ys)
    with Cons.prems Cons.IH [of ys] show ?thesis by auto
  qed
qed

lemma char_val_ascii: "(of_char c :: int) < 128 \<Longrightarrow> char_val sg c = char_val False c"
  by (simp add: char_val_def)

text \<open>Bytes below \<open>0x80\<close> have the same value whether \<^verbatim>\<open>char\<close> is signed or not.\<close>

lemma lex_less_snoc_ascii:
  assumes "nul \<notin> set a" "\<forall>x \<in> set a \<union> set c. (of_char x :: int) < 128"
    "lex_less (char_val sg) (a @ [nul]) (c @ [nul])"
  shows "lex_less (char_val False) a c"
proof -
  have "\<forall>x \<in> set (a @ [nul]) \<union> set (c @ [nul]). char_val sg x = char_val False x"
  proof
    fix x assume "x \<in> set (a @ [nul]) \<union> set (c @ [nul])"
    with assms(2) have "(of_char x :: int) < 128" by auto
    then show "char_val sg x = char_val False x" by (rule char_val_ascii)
  qed
  from lex_less_cong [OF this] assms(3)
  have "lex_less (char_val False) (a @ [nul]) (c @ [nul])" by simp
  from lex_less_snoc_unsigned [OF assms(1) this] show ?thesis .
qed

section \<open>What the claims speak of\<close>

text \<open>The tree after inserting the strings of a list in turn, with enough memory.\<close>

definition insert_all :: "bool \<Rightarrow> char list list \<Rightarrow> radix_trie" where
  "insert_all sg xs = run sg Null (map (Insert []) xs)"

text \<open>A callback that never asks to stop and records the strings it is given.\<close>

definition collect :: "char list \<Rightarrow> char list list \<Rightarrow> int \<times> char list list" where
  "collect s d = (0, d @ [s])"

definition visited :: "char list \<Rightarrow> radix_trie \<Rightarrow> char list option \<Rightarrow> nat \<Rightarrow> char list list" where
  "visited sbuf t b n = data (snd (radix_trie_foreach sbuf t collect [] b n))"

text \<open>
  The length of the buffer \<^verbatim>\<open>radix_trie_foreach\<close> works in, and the condition under which
  that buffer is what its arguments say: a buffer of the caller has \<open>n\<close> bytes and at
  least one, the array on the stack has \<^verbatim>\<open>RADIX_FORBUFSZ\<close> bytes.
\<close>

definition buffer_len :: "char list option \<Rightarrow> nat \<Rightarrow> nat" where
  "buffer_len b n = (case b of Some u \<Rightarrow> n | None \<Rightarrow> RADIX_FORBUFSZ)"

definition buffer_ok :: "char list \<Rightarrow> char list option \<Rightarrow> nat \<Rightarrow> bool" where
  "buffer_ok sbuf b n =
     (case b of Some u \<Rightarrow> length u = n \<and> 1 \<le> n | None \<Rightarrow> length sbuf = RADIX_FORBUFSZ)"

lemma foreach_any:
  assumes "invar sg t" "buffer_ok sbuf b n"
  shows "\<exists>b'. length b' = buffer_len b n \<and>
           radix_trie_foreach sbuf t f d b n =
           (fst (visit_all f d (map (take (buffer_len b n - 1)) (keys t))),
            \<lparr>fn = f, data = snd (visit_all f d (map (take (buffer_len b n - 1)) (keys t))),
               buf = b', len = buffer_len b n\<rparr>)"
proof (cases b)
  case None
  with assms(2) foreach_default [OF assms(1), of sbuf f d n] show ?thesis
    by (simp add: buffer_ok_def buffer_len_def)
next
  case (Some u)
  with assms(2) foreach_user [OF assms(1), of u n sbuf f d] show ?thesis
    by (simp add: buffer_ok_def buffer_len_def)
qed

lemma visit_all_collect: "visit_all collect d xs = (0, d @ xs)"
  by (induction xs arbitrary: d) (simp_all add: collect_def)

lemma visited_eq:
  assumes "invar sg t" "buffer_ok sbuf b n"
  shows "visited sbuf t b n = map (take (buffer_len b n - 1)) (keys t)"
  using foreach_any [OF assms, of collect "[]"] by (auto simp: visited_def visit_all_collect)

lemma take_all_short: "\<forall>m \<in> set ms. length m < n \<Longrightarrow> map (take (n - 1)) ms = ms"
  by (induction ms) auto

lemma insert_all_invar:
  assumes "\<forall>s \<in> set xs. nul \<notin> set s \<and> length s + 1 < 2 ^ 32"
  shows "invar sg (insert_all sg xs)"
  using run_invar [of sg Null "map (Insert []) xs"] assms by (simp add: insert_all_def)

lemma insert_all_keys:
  assumes "\<forall>s \<in> set xs. nul \<notin> set s \<and> length s + 1 < 2 ^ 32"
  shows "set (keys (insert_all sg xs)) = set xs"
proof -
  from run_inserts [of sg Null xs] assms
  have s: "set (strings (insert_all sg xs)) = (\<lambda>s. s @ [nul]) ` set xs"
    by (simp add: insert_all_def)
  show ?thesis
  proof (intro set_eqI iffI)
    fix m assume "m \<in> set (keys (insert_all sg xs))"
    with keys_iff [OF insert_all_invar [OF assms], of m sg] s show "m \<in> set xs" by auto
  next
    fix m assume "m \<in> set xs"
    with keys_iff [OF insert_all_invar [OF assms], of m sg] s show "m \<in> set (keys (insert_all sg xs))"
      by auto
  qed
qed

section \<open>The node a deletion frees\<close>

text \<open>
  The loop of \<^verbatim>\<open>radix_trie_delete\<close> once more, keeping only the nodes that \<^verbatim>\<open>*parent\<close> and
  \<^verbatim>\<open>*root\<close> refer to when the string matches: the node in whose child list the loop is
  (\<open>Null\<close> in the list of the root, where \<^verbatim>\<open>*parent\<close> is a NULL pointer), and the node the
  loop passes to \<^verbatim>\<open>free\<close>, with the children it has then. \<open>None\<close> when the loop ends without
  a match. The first call has \<open>Null\<close> for the parent.
\<close>

function radix_trie_delete_walk ::
  "bool \<Rightarrow> radix_trie \<Rightarrow> radix_trie \<Rightarrow> char list \<Rightarrow> (radix_trie \<times> radix_trie) option" where
  "radix_trie_delete_walk sg parent root str =
     (case snd (radix_trie_lsfind sg root (str_at str 0)) of
        Null \<Rightarrow> None
      | Node sb ch ss \<Rightarrow>
          (let diff = radix_trie_diff (Node sb ch ss) str in
           if diff < length ss then
             if ss ! diff = str_at str diff then Some (parent, Node sb ch ss) else None
           else radix_trie_delete_walk sg (Node sb ch ss) ch (drop diff str)))"
  by pat_completeness auto
termination
proof (relation "measure (\<lambda>(sg, p, t, s). size t)", goal_cases)
  case 1
  show ?case by simp
next
  case (2 sg parent root str sb ch ss)
  from lsfind_child_size [OF 2(1)] show ?case by simp
qed

declare radix_trie_delete_walk.simps [simp del]

text \<open>The nodes of a sibling list.\<close>

fun sib_nodes :: "radix_trie \<Rightarrow> radix_trie list" where
  "sib_nodes Null = []"
| "sib_nodes (Node sb ch ss) = Node sb ch ss # sib_nodes sb"

text \<open>Every terminal node of the tree is a leaf.\<close>

fun terminal_leaves :: "radix_trie \<Rightarrow> bool" where
  "terminal_leaves Null = True"
| "terminal_leaves (Node sb ch ss) =
     ((terminal ss \<longrightarrow> ch = Null) \<and> terminal_leaves sb \<and> terminal_leaves ch)"

lemma invar_terminal_leaves: "invar sg t \<Longrightarrow> terminal_leaves t"
  by (induction t) auto

lemma lsfind_sib_nodes:
  "radix_trie_lsfind sg t c = (pre, pos) \<Longrightarrow> pos \<noteq> Null \<Longrightarrow> pos \<in> set (sib_nodes t)"
  by (induction t arbitrary: pre pos) (auto split: if_splits prod.splits)

lemma walk_eq_suffix:
  assumes "invar sg root" "radix_trie_lsfind sg root (str_at str 0) = (pre, pos)"
    "pos = Null \<or> char_val sg (str_at str 0) < char_val sg (substr pos ! 0)"
  shows "radix_trie_delete_walk sg parent root str = None"
proof (cases pos)
  case Null
  with assms(2) show ?thesis by (subst radix_trie_delete_walk.simps) simp
next
  case (Node sb ch ss)
  with assms(3) have ne: "ss ! 0 \<noteq> str_at str 0" by auto
  from invar_lsfind [OF assms(2,1)] Node have "ss \<noteq> []" by simp
  with assms(2) Node ne diff_zero [OF ne, of sb ch] show ?thesis
    by (subst radix_trie_delete_walk.simps) simp
qed

lemma walk_eq_found:
  assumes "radix_trie_lsfind sg root (str_at str 0) = (pre, Node sb Null (str @ [nul]))"
    "radix_trie_diff (Node sb Null (str @ [nul])) str = length str"
  shows "radix_trie_delete_walk sg parent root str = Some (parent, Node sb Null (str @ [nul]))"
  using assms snoc_nul_nth [of "length str" str]
  by (subst radix_trie_delete_walk.simps) simp

lemma walk_eq_split:
  assumes "radix_trie_lsfind sg root (str_at str 0) = (pre, Node sb ch ss)"
    "d = radix_trie_diff (Node sb ch ss) str" "d < length ss" "ss ! d \<noteq> str_at str d"
  shows "radix_trie_delete_walk sg parent root str = None"
  using assms by (subst radix_trie_delete_walk.simps) simp

lemma walk_eq_descend:
  assumes "radix_trie_lsfind sg root (str_at str 0) = (pre, Node sb ch ss)"
    "radix_trie_diff (Node sb ch ss) str = length ss" "str = ss @ rest"
  shows "radix_trie_delete_walk sg parent root str =
         radix_trie_delete_walk sg (Node sb ch ss) ch rest"
proof -
  from assms(3) have "drop (length ss) str = rest" by (metis append_eq_conv_conj)
  with assms(1,2) show ?thesis by (subst radix_trie_delete_walk.simps) simp
qed

text \<open>
  The loop frees a node exactly when the string is a member, the node is then a leaf
  that ends with the terminator, and \<^verbatim>\<open>radix_trie_delete_loop\<close> reports a removal.
\<close>

lemma walk_spec_all:
  assumes "invar sg root" "nul \<notin> set str"
  shows "\<forall>parent.
         (radix_trie_delete_walk sg parent root str = None \<longleftrightarrow>
            str @ [nul] \<notin> set (strings root)) \<and>
         (radix_trie_delete_walk sg parent root str = None \<longleftrightarrow>
            fst (radix_trie_delete_loop sg al root str) = Unmatched) \<and>
         (\<forall>p node. radix_trie_delete_walk sg parent root str = Some (p, node) \<longrightarrow>
            child node = Null \<and> terminal (substr node))"
  using assms
proof (induction al root str rule: insert_induct_invar)
  case (suffix al root str pre pos)
  from member_suffix [OF suffix(1,3,4)] show ?case
    by (simp add: walk_eq_suffix [OF suffix(1,3,4)] delete_eq_suffix [OF suffix(1,3,4)])
next
  case (found al root str pre sb)
  from member_found [OF found(1,3)] show ?case
    by (simp add: walk_eq_found [OF found(3,4)] delete_eq_found [OF found(3,4)] terminal_snoc)
next
  case (split al root str pre sb ch ss d)
  from member_split [OF split(1,3,7,10)] show ?case
    by (simp add: walk_eq_split [OF split(3,5,7,10)] delete_eq_split [OF split(3,5,7,10)])
next
  case (descend al root str pre sb ch ss rest)
  obtain st ch' where r: "radix_trie_delete_loop sg al ch rest = (st, ch')"
    by (cases "radix_trie_delete_loop sg al ch rest")
  have "fst (radix_trie_delete_loop sg al root str) = Unmatched \<longleftrightarrow> st = Unmatched"
    by (cases st) (simp_all add: delete_eq_descend [OF descend(3,5,6)] r split: prod.split)
  with spec [OF descend(11), of "Node sb ch ss"] r member_descend [OF descend(1,3,4,6,7,8)]
  show ?case
    unfolding walk_eq_descend [OF descend(3,5,6)] by auto
qed

lemma walk_spec:
  assumes "invar sg root" "nul \<notin> set str"
  shows "radix_trie_delete_walk sg parent root str = None \<longleftrightarrow> str @ [nul] \<notin> set (strings root)"
    and "radix_trie_delete_walk sg parent root str = None \<longleftrightarrow>
         fst (radix_trie_delete_loop sg al root str) = Unmatched"
    and "radix_trie_delete_walk sg parent root str = Some (p, node) \<Longrightarrow>
         child node = Null \<and> terminal (substr node)"
  using spec [OF walk_spec_all [OF assms, of al], of parent] by blast+

text \<open>
  A member that is a strict prefix of another member ends in a node of its own that
  holds the terminator only. When the member is not the empty string, that node is in the
  child list of a node that is not terminal; the node of the empty string is in the list
  of the root.
\<close>

lemma walk_prefix:
  assumes "invar sg root" "nul \<notin> set str"
  shows "r \<noteq> [] \<longrightarrow> str @ [nul] \<in> set (strings root) \<longrightarrow> (str @ r) @ [nul] \<in> set (strings root) \<longrightarrow>
         (\<forall>parent. \<exists>q sb. radix_trie_delete_walk sg parent root str = Some (q, Node sb Null [nul]) \<and>
            (str = [] \<longrightarrow> q = parent \<and> Node sb Null [nul] \<in> set (sib_nodes root)) \<and>
            (str \<noteq> [] \<longrightarrow> q \<noteq> Null \<and> \<not> terminal (substr q) \<and>
               Node sb Null [nul] \<in> set (sib_nodes (child q))))"
  using assms
proof (induction "[] :: alloc" root str rule: insert_induct_invar)
  case (suffix root str pre pos)
  from member_suffix [OF suffix(1,3,4)] show ?case by simp
next
  case (split root str pre sb ch ss d)
  from member_split [OF split(1,3,7,10)] show ?case by simp
next
  case (found root str pre sb)
  show ?case
  proof (intro impI allI)
    fix parent
    assume r: "r \<noteq> []" and m: "(str @ r) @ [nul] \<in> set (strings root)"
    have e: "str = []"
    proof (rule ccontr)
      assume ne: "str \<noteq> []"
      then have "hd ((str @ r) @ [nul]) = str_at str 0"
        by (simp add: str_at_def hd_append hd_conv_nth)
      with strings_at_pos [OF found(1,3), of "(str @ r) @ [nul]"] m
      have "(str @ r) @ [nul] \<in> set (strings (Node Null Null (str @ [nul])))" by simp
      with r show False by (simp add: terminal_snoc)
    qed
    from lsfind_sib_nodes [OF found(3)] e
    have "Node sb Null [nul] \<in> set (sib_nodes root)" by simp
    with walk_eq_found [OF found(3,4), of parent] e
    show "\<exists>q sb. radix_trie_delete_walk sg parent root str = Some (q, Node sb Null [nul]) \<and>
            (str = [] \<longrightarrow> q = parent \<and> Node sb Null [nul] \<in> set (sib_nodes root)) \<and>
            (str \<noteq> [] \<longrightarrow> q \<noteq> Null \<and> \<not> terminal (substr q) \<and>
               Node sb Null [nul] \<in> set (sib_nodes (child q)))"
      by simp
  qed
next
  case (descend root str pre sb ch ss rest)
  show ?case
  proof (intro impI allI)
    fix parent
    assume r: "r \<noteq> []" and m1: "str @ [nul] \<in> set (strings root)"
      and m2: "(str @ r) @ [nul] \<in> set (strings root)"
    from descend(6,7) have ne: "str \<noteq> []" by auto
    then have c: "str_at (str @ r) 0 = str_at str 0" by (simp add: str_at_def nth_append)
    have s2: "str @ r = ss @ rest @ r" using descend(6) by simp
    from member_descend [OF descend(1), of "str @ r" pre sb ch ss "rest @ r"] c descend(3,4,7,8) s2 m2
    have "(rest @ r) @ [nul] \<in> set (strings ch)" by simp
    moreover from member_descend [OF descend(1,3,4,6,7,8)] m1
    have "rest @ [nul] \<in> set (strings ch)" by simp
    ultimately obtain q sb' where
      w: "radix_trie_delete_walk sg (Node sb ch ss) ch rest = Some (q, Node sb' Null [nul])"
      and q0: "rest = [] \<longrightarrow> q = Node sb ch ss \<and> Node sb' Null [nul] \<in> set (sib_nodes ch)"
      and q1: "rest \<noteq> [] \<longrightarrow> q \<noteq> Null \<and> \<not> terminal (substr q) \<and>
               Node sb' Null [nul] \<in> set (sib_nodes (child q))"
      using descend(11) r by blast
    from not_terminal [OF descend(7,8)] have nt: "\<not> terminal ss" .
    from q0 q1 nt have "q \<noteq> Null \<and> \<not> terminal (substr q) \<and>
        Node sb' Null [nul] \<in> set (sib_nodes (child q))"
      by (cases "rest = []") auto
    with w ne
    show "\<exists>q sb. radix_trie_delete_walk sg parent root str = Some (q, Node sb Null [nul]) \<and>
            (str = [] \<longrightarrow> q = parent \<and> Node sb Null [nul] \<in> set (sib_nodes root)) \<and>
            (str \<noteq> [] \<longrightarrow> q \<noteq> Null \<and> \<not> terminal (substr q) \<and>
               Node sb Null [nul] \<in> set (sib_nodes (child q)))"
      by (simp add: walk_eq_descend [OF descend(3,5,6)])
  qed
qed

section \<open>The order by raw byte value\<close>

lemma keys_sorted_raw:
  assumes "invar sg t" and "\<not> sg \<or> (\<forall>s \<in> set (keys t). \<forall>c \<in> set s. (of_char c :: int) < 128)"
  shows "sorted_wrt (lex_less (char_val False)) (keys t)"
proof (rule sorted_wrt_mono_rel [OF _ keys_sorted [OF assms(1)]])
  fix a c
  assume a: "a \<in> set (keys t)" and c: "c \<in> set (keys t)"
    and l: "lex_less (char_val sg) (a @ [nul]) (c @ [nul])"
  from keys_nonul [OF assms(1) a] have na: "nul \<notin> set a" .
  show "lex_less (char_val False) a c"
  proof (cases sg)
    case False
    with l lex_less_snoc_unsigned [OF na] show ?thesis by simp
  next
    case True
    with assms(2) a c have "\<forall>x \<in> set a \<union> set c. (of_char x :: int) < 128" by auto
    from lex_less_snoc_ascii [OF na this l] show ?thesis .
  qed
qed

section \<open>Strings too long for the field\<close>

text \<open>
  A string of \<open>2^32\<close> bytes: \<^verbatim>\<open>radix_trie_make_suffix\<close> computes the length \<open>2^32 + 1\<close> in
  \<^verbatim>\<open>size_t\<close> and stores 1 in the field \<^verbatim>\<open>len\<close>, so the node of the string covers its first
  byte only and is not terminal. The facts below give the calls on the string of \<open>2^32\<close>
  bytes \<open>a\<close> without unfolding it.
\<close>

lemma suffix_bytes_wrap:
  assumes "nul \<notin> set str" "length str = 2 ^ 32" "str \<noteq> []"
  shows "suffix_bytes str = [hd str]"
proof -
  from assms(3) obtain x xs where s: "str = x # xs" by (cases str) auto
  have "as_unsigned (length str + 1) = 1" using assms(2) by (simp add: as_unsigned_def)
  then have "suffix_bytes str = take 1 (str @ [nul])"
    unfolding suffix_bytes_def takeWhile_nonul [OF assms(1)] by simp
  with s show ?thesis by simp
qed

lemma long_string_facts:
  "nul \<notin> set (replicate 4294967296 (CHR ''a''))"
  "length (replicate 4294967296 (CHR ''a'')) = 2 ^ 32"
  "replicate 4294967296 (CHR ''a'') \<noteq> []"
  "hd (replicate 4294967296 (CHR ''a'')) = CHR ''a''"
  "str_at (replicate 4294967296 (CHR ''a'')) 0 = CHR ''a''"
  by (simp_all add: str_at_def hd_replicate)

lemma long_string_insert:
  "radix_trie_insert sg al Null (replicate 4294967296 (CHR ''a'')) =
     (if alloc_ok al then (0, Node Null Null ''a'') else (1, Null))"
proof -
  have "radix_trie_lsfind sg Null (str_at (replicate 4294967296 (CHR ''a'')) 0) = ([], Null)"
    by simp
  from insert_eq_suffix_gen [OF this, of al] suffix_bytes_wrap [OF long_string_facts(1,2,3)] long_string_facts(4)
  show ?thesis by simp
qed

lemma long_string_lookup:
  "\<not> radix_trie_lookup sg (Node sb Null ''a'') (replicate 4294967296 (CHR ''a''))"
proof -
  let ?G = "replicate 4294967296 (CHR ''a'')"
  have d: "radix_trie_diff (Node sb Null ''a'') ?G = 1"
    unfolding radix_trie_diff_def
    by (subst diff_loop.simps, subst diff_loop.simps) (simp add: long_string_facts(5))
  have l: "\<not> radix_trie_lookup sg Null s" for s
    by (subst radix_trie_lookup.simps) simp
  show ?thesis
    by (subst radix_trie_lookup.simps) (simp add: long_string_facts(5) d l)
qed


lemma long_string_run:
  "run sg Null (Insert [] (replicate 4294967296 (CHR ''a'')) # cs) = run sg (Node Null Null ''a'') cs"
  "results sg Null (Insert [] (replicate 4294967296 (CHR ''a'')) # cs) =
     0 # results sg (Node Null Null ''a'') cs"
  by (simp_all add: long_string_insert alloc_ok_def)

lemma long_string_tail:
  "radix_trie_insert sg [] (Node Null Null ''a'') (replicate 4294967296 (CHR ''a'') @ ''b'') =
     (0, Node Null (Node Null Null ''a'') ''a'')"
proof -
  let ?G = "replicate 4294967296 (CHR ''a'')"
  let ?R = "replicate 4294967295 (CHR ''a'') @ ''b''"
  have g: "?G = CHR ''a'' # replicate 4294967295 (CHR ''a'')"
    using replicate_Suc [of 4294967295 "CHR ''a''"] by simp
  then have str: "?G @ ''b'' = ''a'' @ ?R" by simp
  have s0: "str_at (?G @ ''b'') 0 = CHR ''a''" unfolding str by (simp add: str_at_def)
  have ls: "radix_trie_lsfind sg (Node Null Null ''a'') (str_at (?G @ ''b'') 0) =
      ([], Node Null Null ''a'')" by (simp add: s0)
  have d: "radix_trie_diff (Node Null Null ''a'') (?G @ ''b'') = length ''a''"
    unfolding radix_trie_diff_def
    by (subst diff_loop.simps, subst diff_loop.simps) (simp add: s0)
  have f: "''a'' ! 0 = str_at (?G @ ''b'') 0" by (simp add: s0)
  have n: "nul \<notin> set ?R" by simp
  have l: "length ?R = 2 ^ 32" by simp
  have ne: "?R \<noteq> []" by simp
  have h: "hd ?R = CHR ''a''" by (simp add: hd_append)
  have "radix_trie_lsfind sg Null (str_at ?R 0) = ([], Null)" by simp
  from insert_eq_suffix_gen [OF this, of "[]"] suffix_bytes_wrap [OF n l ne] h
  have "radix_trie_insert sg [] Null ?R = (0, Node Null Null ''a'')"
    by (simp add: alloc_ok_def)
  with insert_eq_descend [OF ls f d str, of "[]"] show ?thesis by simp
qed

section \<open>The claims\<close>

text \<open>
  In the theorems below a tree is either any tree that satisfies the invariants
  (\<open>invar\<close>), or the tree \<open>run sg Null cs\<close> that a sequence of calls builds from the
  empty tree. When the strings of the calls have fewer than \<open>2^32 - 1\<close> bytes, every such
  tree satisfies the invariants and its lengths fit the field \<^verbatim>\<open>len\<close> (\<open>run_invar\<close>). A
  string argument is a list of bytes without the terminator. \<open>sg\<close> says whether \<^verbatim>\<open>char\<close> is
  signed.
\<close>

text \<open>
  C1: for every finite set of strings, inserting each member into an empty tree and then
  calling \<^verbatim>\<open>radix_trie_foreach\<close> yields exactly the members, each once, in ascending order
  of raw byte value. As the code has it: for strings of fewer than \<open>2^32 - 1\<close> bytes, when
  every insertion has enough memory and the buffer in use is longer than every member,
  the callback is given exactly the members, each once, in ascending order of the strings
  with their terminators, the bytes compared as values of \<^verbatim>\<open>char\<close>. That order is the order
  by raw byte value where \<^verbatim>\<open>char\<close> is unsigned, and for members whose bytes are all below
  \<open>0x80\<close>.
\<close>

theorem insert_foreach_round_trip:
  assumes "\<forall>s \<in> set xs. nul \<notin> set s \<and> length s + 1 < 2 ^ 32" and "buffer_ok sbuf b n"
    and "\<forall>s \<in> set xs. length s < buffer_len b n"
  shows "set (visited sbuf (insert_all sg xs) b n) = set xs \<and>
         distinct (visited sbuf (insert_all sg xs) b n) \<and>
         sorted_wrt (\<lambda>a c. lex_less (char_val sg) (a @ [nul]) (c @ [nul]))
           (visited sbuf (insert_all sg xs) b n) \<and>
         ((\<not> sg \<or> (\<forall>s \<in> set xs. \<forall>c \<in> set s. (of_char c :: int) < 128)) \<longrightarrow>
            sorted_wrt (lex_less (char_val False)) (visited sbuf (insert_all sg xs) b n))"
proof -
  let ?t = "insert_all sg xs"
  have inv: "invar sg ?t" by (rule insert_all_invar [OF assms(1)])
  have ks: "set (keys ?t) = set xs" by (rule insert_all_keys [OF assms(1)])
  have "\<forall>m \<in> set (keys ?t). length m < buffer_len b n" using ks assms(3) by simp
  from take_all_short [OF this] visited_eq [OF inv assms(2)]
  have v: "visited sbuf ?t b n = keys ?t" by simp
  have raw: "sorted_wrt (lex_less (char_val False)) (keys ?t)"
    if h: "\<not> sg \<or> (\<forall>s \<in> set xs. \<forall>c \<in> set s. (of_char c :: int) < 128)"
    using keys_sorted_raw [OF inv] h ks by simp
  show ?thesis unfolding v using ks keys_distinct [OF inv] keys_sorted [OF inv] raw by blast
qed

text \<open>The theorem at the strings \<open>cat\<close>, \<open>car\<close>, \<open>dog\<close>, with \<open>car\<close> inserted twice.\<close>

theorem insert_foreach_round_trip_witness:
  "set (visited [] (insert_all False [''cat'', ''car'', ''dog'', ''car'']) (Some (replicate 8 nul)) 8) =
     {''cat'', ''car'', ''dog''} \<and>
   visited [] (insert_all False [''cat'', ''car'', ''dog'', ''car'']) (Some (replicate 8 nul)) 8 =
     [''car'', ''cat'', ''dog''] \<and>
   sorted_wrt (lex_less (char_val False))
     (visited [] (insert_all False [''cat'', ''car'', ''dog'', ''car'']) (Some (replicate 8 nul)) 8)"
proof -
  have h1: "\<forall>s \<in> set [''cat'', ''car'', ''dog'', ''car'']. nul \<notin> set s \<and> length s + 1 < 2 ^ 32"
    by simp
  have h2: "buffer_ok [] (Some (replicate 8 nul)) 8" by (simp add: buffer_ok_def)
  have h3: "\<forall>s \<in> set [''cat'', ''car'', ''dog'', ''car'']. length s < buffer_len (Some (replicate 8 nul)) 8"
    by (simp add: buffer_len_def)
  have e: "visited [] (insert_all False [''cat'', ''car'', ''dog'', ''car'']) (Some (replicate 8 nul)) 8 =
     [''car'', ''cat'', ''dog'']" by code_simp
  from insert_foreach_round_trip [OF h1 h2 h3, of False] e show ?thesis by auto
qed

text \<open>
  Where \<^verbatim>\<open>char\<close> is signed the byte \<open>0x80\<close> has the value \<open>-128\<close>: \<^verbatim>\<open>radix_trie_lsfind\<close>
  places it before \<open>a\<close>, and the iteration yields it first, against the order by raw byte
  value. A member longer than the buffer is yielded cut short. And a string of \<open>2^32\<close>
  bytes is stored in a node whose length wraps to 1: the insertion returns zero, the node
  holds the first byte only and is not terminal, and the iteration yields nothing.
\<close>

theorem foreach_order_counterexample:
  "visited [] (insert_all True [''a'', [CHR 0x80]]) (Some (replicate 8 nul)) 8 = [[CHR 0x80], ''a''] \<and>
   \<not> sorted_wrt (lex_less (char_val False))
       (visited [] (insert_all True [''a'', [CHR 0x80]]) (Some (replicate 8 nul)) 8) \<and>
   visited [] (insert_all False [''abc'']) (Some (replicate 2 nul)) 2 = [''a''] \<and>
   results False Null [Insert [] (replicate 4294967296 (CHR ''a''))] = [0] \<and>
   visited [] (insert_all False [replicate 4294967296 (CHR ''a'')]) (Some (replicate 8 nul)) 8 = []"
proof -
  have a: "visited [] (insert_all True [''a'', [CHR 0x80]]) (Some (replicate 8 nul)) 8 = [[CHR 0x80], ''a'']"
    by code_simp
  have b: "\<not> sorted_wrt (lex_less (char_val False)) [[CHR 0x80], ''a'']" by code_simp
  have c: "visited [] (insert_all False [''abc'']) (Some (replicate 2 nul)) 2 = [''a'']" by code_simp
  have d: "results False Null [Insert [] (replicate 4294967296 (CHR ''a''))] = [0]"
    unfolding long_string_run(2) by simp
  have t: "insert_all False [replicate 4294967296 (CHR ''a'')] = Node Null Null ''a''"
    unfolding insert_all_def list.map long_string_run(1) by simp
  have e: "visited [] (Node Null Null ''a'') (Some (replicate 8 nul)) 8 = []" by code_simp
  from a b c d e show ?thesis unfolding t by (simp del: results.simps)
qed

text \<open>
  C2: when \<^verbatim>\<open>radix_trie_insert\<close> fails the tree is left exactly as it was, still in
  canonical form, with no partial split. As the code has it: a failed insertion leaves
  the members (and their order) and the invariants as they were, and it leaves the tree
  itself as it was when the first allocation request of the call is the one that fails.
  The source has no code that undoes a split: when the prefix node was allocated and the
  allocation of the suffix node fails, the split stays.
\<close>

theorem insert_failure_keeps_members:
  assumes "invar sg t" and "nul \<notin> set s" and "fst (radix_trie_insert sg al t s) \<noteq> 0"
  shows "keys (snd (radix_trie_insert sg al t s)) = keys t \<and>
         strings (snd (radix_trie_insert sg al t s)) = strings t \<and>
         invar sg (snd (radix_trie_insert sg al t s)) \<and>
         (\<not> alloc_ok al \<longrightarrow> snd (radix_trie_insert sg al t s) = t)"
  using insert_failure [OF assms(1,2), of al] assms(3)
    insert_first_alloc_fails [OF assms(1,2), of al]
  by (simp add: keys_def)

text \<open>The theorem at the tree of \<open>ab\<close>, inserting \<open>ac\<close>, the third request failing.\<close>

theorem insert_failure_keeps_members_witness:
  "fst (radix_trie_insert False [True, True, False] (insert_all False [''ab'']) ''ac'') = 1 \<and>
   keys (snd (radix_trie_insert False [True, True, False] (insert_all False [''ab'']) ''ac'')) =
     keys (insert_all False [''ab'']) \<and>
   keys (insert_all False [''ab'']) = [''ab'']"
proof -
  have h1: "invar False (insert_all False [''ab''])" by code_simp
  have h2: "nul \<notin> set ''ac''" by simp
  have r: "fst (radix_trie_insert False [True, True, False] (insert_all False [''ab'']) ''ac'') = 1"
    by code_simp
  then have h3: "fst (radix_trie_insert False [True, True, False] (insert_all False [''ab'']) ''ac'') \<noteq> 0"
    by simp
  have k: "keys (insert_all False [''ab'']) = [''ab'']" by code_simp
  from insert_failure_keeps_members [OF h1 h2 h3] r k show ?thesis by simp
qed

text \<open>
  Inserting \<open>ac\<close> into the tree of \<open>ab\<close> splits the node after \<open>a\<close>. When the \<^verbatim>\<open>malloc\<close> of
  \<^verbatim>\<open>radix_trie_split\<close> and its \<^verbatim>\<open>realloc\<close> succeed and the \<^verbatim>\<open>malloc\<close> of
  \<^verbatim>\<open>radix_trie_make_suffix\<close> fails, the call returns 1 and the tree is the node \<open>a\<close> with
  the single child \<open>b\<close>: not the tree before the call, and not canonical.
\<close>

theorem insert_failure_counterexample:
  "insert_all False [''ab''] = Node Null Null [CHR ''a'', CHR ''b'', nul] \<and>
   canonical (insert_all False [''ab'']) \<and>
   radix_trie_insert False [True, True, False] (insert_all False [''ab'']) ''ac'' =
     (1, Node Null (Node Null Null [CHR ''b'', nul]) ''a'') \<and>
   \<not> canonical (Node Null (Node Null Null [CHR ''b'', nul]) ''a'')"
proof -
  have a: "insert_all False [''ab''] = Node Null Null [CHR ''a'', CHR ''b'', nul]" by code_simp
  have b: "canonical (insert_all False [''ab''])" by code_simp
  have c: "radix_trie_insert False [True, True, False] (insert_all False [''ab'']) ''ac'' =
     (1, Node Null (Node Null Null [CHR ''b'', nul]) ''a'')" by code_simp
  have d: "\<not> canonical (Node Null (Node Null Null [CHR ''b'', nul]) ''a'')" by code_simp
  from a b c d show ?thesis by simp
qed

text \<open>
  C3: the value \<^verbatim>\<open>radix_trie_delete\<close> returns tells apart a string that was found and
  removed (zero), a string that was absent (positive) and a removal after which fusing
  failed (negative). The header radix.h documents these three values. The function
  returns zero when the string is absent, as it does when the string is removed, and it
  never returns a positive value: \<^verbatim>\<open>res\<close> is initialised to zero and assigned only from
  \<^verbatim>\<open>radix_trie_fuse\<close>, which returns zero or \<open>-1\<close>. The theorem shows both calls on the
  string \<open>a\<close>, and the values the function can return.
\<close>

theorem delete_absent_returns_zero:
  "radix_trie_delete sg al Null ''a'' = (0, Null) \<and>
   radix_trie_delete sg al (Node Null Null [CHR ''a'', nul]) ''a'' = (0, Null) \<and>
   (fst (radix_trie_delete sg al root str) = 0 \<or> fst (radix_trie_delete sg al root str) = - 1)"
proof -
  have "radix_trie_delete_loop sg al Null ''a'' = (Unmatched, Null)"
    by (subst radix_trie_delete_loop.simps) simp
  then have a: "radix_trie_delete sg al Null ''a'' = (0, Null)"
    by (simp add: radix_trie_delete_def)
  have d: "radix_trie_diff (Node Null Null [CHR ''a'', nul]) ''a'' = 1"
    by (simp add: radix_trie_diff_def diff_loop.simps str_at_def)
  have "radix_trie_delete_loop sg al (Node Null Null [CHR ''a'', nul]) ''a'' = (Unlinked, Null)"
    by (subst radix_trie_delete_loop.simps) (simp add: d str_at_def)
  then have b: "radix_trie_delete sg al (Node Null Null [CHR ''a'', nul]) ''a'' = (0, Null)"
    by (simp add: radix_trie_delete_def fuse_Null)
  from a b delete_result [of sg al root str] show ?thesis by simp
qed

text \<open>
  C4: for every tree built by inserts and deletes and every string \<open>p\<close>,
  \<^verbatim>\<open>radix_trie_match\<close> returns true if and only if some member starts with \<open>p\<close>, and for the
  empty \<open>p\<close> it returns true whatever the set, the empty set included. As the code has
  it: when the strings of the calls have fewer than \<open>2^32 - 1\<close> bytes and no call of the
  sequence reported a failure, \<^verbatim>\<open>radix_trie_match\<close> returns true if and only if some member
  starts with \<open>p\<close>, for every \<open>p\<close> that is not empty, and for the empty \<open>p\<close> too where
  \<^verbatim>\<open>char\<close> is unsigned; so on the empty set it returns false for the empty \<open>p\<close>.
\<close>

theorem match_iff_prefix:
  assumes "\<forall>c \<in> set cs. nul \<notin> set (call_str c) \<and> length (call_str c) + 1 < 2 ^ 32"
    and "\<forall>r \<in> set (results sg Null cs). r = 0"
    and "nul \<notin> set p" and "p \<noteq> [] \<or> \<not> sg"
  shows "radix_trie_match sg (run sg Null cs) p \<longleftrightarrow>
         (\<exists>m \<in> set (keys (run sg Null cs)). take (length p) m = p)"
proof -
  let ?t = "run sg Null cs"
  have inv: "invar sg ?t" using run_invar [of sg Null cs] assms(1) by simp
  have cmp: "compressed ?t" using run_compressed [of sg Null cs] assms(1,2) by simp
  have "radix_trie_match sg ?t p = has_prefix ?t p"
  proof (cases "p = []")
    case True
    with assms(4) match_empty_unsigned [of ?t] inv cmp show ?thesis by simp
  next
    case False
    with match_correct [OF inv assms(3)] cmp show ?thesis by simp
  qed
  with has_prefix_keys [OF inv assms(3)] show ?thesis by simp
qed

text \<open>The theorem at the set \<open>car\<close>, \<open>cat\<close>, left after \<open>dog\<close> is deleted.\<close>

theorem match_iff_prefix_witness:
  "radix_trie_match False
     (run False Null [Insert [] ''cat'', Insert [] ''car'', Insert [] ''dog'', Delete [] ''dog'']) ''ca'' \<and>
   \<not> radix_trie_match False
     (run False Null [Insert [] ''cat'', Insert [] ''car'', Insert [] ''dog'', Delete [] ''dog'']) ''do'' \<and>
   radix_trie_match False
     (run False Null [Insert [] ''cat'', Insert [] ''car'', Insert [] ''dog'', Delete [] ''dog'']) []"
proof -
  let ?cs = "[Insert [] ''cat'', Insert [] ''car'', Insert [] ''dog'', Delete [] ''dog'']"
  have h1: "\<forall>c \<in> set ?cs. nul \<notin> set (call_str c) \<and> length (call_str c) + 1 < 2 ^ 32" by simp
  have h2: "\<forall>r \<in> set (results False Null ?cs). r = 0" by code_simp
  have k: "keys (run False Null ?cs) = [''car'', ''cat'']" by code_simp
  have a: "radix_trie_match False (run False Null ?cs) ''ca''"
    using match_iff_prefix [OF h1 h2, of "''ca''"] k by simp
  have b: "\<not> radix_trie_match False (run False Null ?cs) ''do''"
    using match_iff_prefix [OF h1 h2, of "''do''"] k by simp
  have c: "radix_trie_match False (run False Null ?cs) []"
    using match_iff_prefix [OF h1 h2, of "[]"] k by (auto simp del: run.simps)
  from a b c show ?thesis by simp
qed

text \<open>
  On the empty tree \<^verbatim>\<open>radix_trie_lsfind\<close> returns a NULL position and the function returns
  false before it looks at the prefix. After an insertion that failed behind its split
  and a deletion, the node \<open>a\<close> is left without children: the set is empty and the
  prefix \<open>a\<close> matches. Where \<^verbatim>\<open>char\<close> is signed the search for the terminator steps over a
  first byte \<open>0x80\<close>, and the empty prefix does not match a set that is not empty. And
  after the insertion of a string of \<open>2^32\<close> bytes \<open>a\<close>, which returns zero, the prefix
  \<open>aa\<close> does not match: the node holds one byte.
\<close>

theorem match_counterexample:
  "\<not> radix_trie_match False Null [] \<and> \<not> radix_trie_match True Null [] \<and>
   results False Null [Insert [] ''ab'', Insert [True, True, False] ''ac'', Delete [] ''ab''] = [0, 1, 0] \<and>
   keys (run False Null [Insert [] ''ab'', Insert [True, True, False] ''ac'', Delete [] ''ab'']) = [] \<and>
   radix_trie_match False
     (run False Null [Insert [] ''ab'', Insert [True, True, False] ''ac'', Delete [] ''ab'']) ''a'' \<and>
   keys (insert_all True [[CHR 0x80]]) = [[CHR 0x80]] \<and>
   \<not> radix_trie_match True (insert_all True [[CHR 0x80]]) [] \<and>
   results False Null [Insert [] (replicate 4294967296 (CHR ''a''))] = [0] \<and>
   take 2 (replicate 4294967296 (CHR ''a'')) = ''aa'' \<and>
   \<not> radix_trie_match False (run False Null [Insert [] (replicate 4294967296 (CHR ''a''))]) ''aa''"
proof -
  have a: "\<not> radix_trie_match False Null []" by code_simp
  have b: "\<not> radix_trie_match True Null []" by code_simp
  have c: "results False Null [Insert [] ''ab'', Insert [True, True, False] ''ac'', Delete [] ''ab''] = [0, 1, 0]"
    by code_simp
  have d: "keys (run False Null [Insert [] ''ab'', Insert [True, True, False] ''ac'', Delete [] ''ab'']) = []"
    by code_simp
  have e: "radix_trie_match False
     (run False Null [Insert [] ''ab'', Insert [True, True, False] ''ac'', Delete [] ''ab'']) ''a''"
    by code_simp
  have f: "keys (insert_all True [[CHR 0x80]]) = [[CHR 0x80]]" by code_simp
  have g: "\<not> radix_trie_match True (insert_all True [[CHR 0x80]]) []" by code_simp
  have h: "results False Null [Insert [] (replicate 4294967296 (CHR ''a''))] = [0]"
    unfolding long_string_run(2) by simp
  have i: "take 2 (replicate 4294967296 (CHR ''a'')) = ''aa''"
    by (simp add: take_replicate numeral_2_eq_2)
  have t: "run False Null [Insert [] (replicate 4294967296 (CHR ''a''))] = Node Null Null ''a''"
    unfolding long_string_run(1) by simp
  have j: "\<not> radix_trie_match False (Node Null Null ''a'') ''aa''" by code_simp
  from a b c d e f g h i j show ?thesis unfolding t by (simp del: run.simps results.simps)
qed

text \<open>
  C5: for every set built by inserts and every member \<open>s\<close>, after
  \<^verbatim>\<open>radix_trie_delete\<close> of \<open>s\<close>, also when it reports a failed fuse, the lookup of \<open>s\<close> is
  false and every other member is still present: its lookup is true and the iteration
  yields all of them. As the code has it: this holds when the strings have fewer than
  \<open>2^32 - 1\<close> bytes. The theorem is for a tree built by any calls on such strings,
  whatever their allocations did, and for any outcome of the allocation of the fuse; the
  iteration is one in a buffer longer than every member.
\<close>

theorem delete_removes_one_member:
  assumes "\<forall>c \<in> set cs. nul \<notin> set (call_str c) \<and> length (call_str c) + 1 < 2 ^ 32"
    and "s \<in> set (keys (run sg Null cs))"
    and "buffer_ok sbuf b n" and "\<forall>m \<in> set (keys (run sg Null cs)). length m < buffer_len b n"
  shows "\<not> radix_trie_lookup sg (snd (radix_trie_delete sg al (run sg Null cs) s)) s \<and>
         (\<forall>m \<in> set (keys (run sg Null cs)). m \<noteq> s \<longrightarrow>
            radix_trie_lookup sg (snd (radix_trie_delete sg al (run sg Null cs) s)) m) \<and>
         keys (snd (radix_trie_delete sg al (run sg Null cs) s)) = removeAll s (keys (run sg Null cs)) \<and>
         visited sbuf (snd (radix_trie_delete sg al (run sg Null cs) s)) b n =
           removeAll s (keys (run sg Null cs)) \<and>
         (fst (radix_trie_delete sg al (run sg Null cs) s) = 0 \<or>
          fst (radix_trie_delete sg al (run sg Null cs) s) = - 1)"
proof -
  let ?t = "run sg Null cs"
  let ?t' = "snd (radix_trie_delete sg al ?t s)"
  have inv: "invar sg ?t" and fit: "fits 0 ?t" using run_invar [of sg Null cs] assms(1) by simp_all
  from keys_nonul [OF inv assms(2)] have ns: "nul \<notin> set s" .
  note d = delete_spec [OF inv ns fit, of al]
  from keys_removeAll [OF inv d(2)] have k: "keys ?t' = removeAll s (keys ?t)" .
  have l1: "\<not> radix_trie_lookup sg ?t' s" using lookup_keys [OF d(1) ns] k by simp
  have l2: "radix_trie_lookup sg ?t' m" if "m \<in> set (keys ?t)" "m \<noteq> s" for m
    using lookup_keys [OF d(1) keys_nonul [OF inv that(1)]] k that by simp
  have "\<forall>m \<in> set (keys ?t'). length m < buffer_len b n" using k assms(4) by simp
  from take_all_short [OF this] visited_eq [OF d(1) assms(3)] k
  have v: "visited sbuf ?t' b n = removeAll s (keys ?t)" by simp
  from l1 l2 k v d(3) show ?thesis by blast
qed

text \<open>The theorem at the set \<open>a\<close>, \<open>ab\<close>, \<open>abc\<close>, deleting \<open>ab\<close> with a fuse that fails.\<close>

theorem delete_removes_one_member_witness:
  "fst (radix_trie_delete False [False]
          (run False Null [Insert [] ''a'', Insert [] ''ab'', Insert [] ''abc'']) ''ab'') = - 1 \<and>
   \<not> radix_trie_lookup False
       (snd (radix_trie_delete False [False]
          (run False Null [Insert [] ''a'', Insert [] ''ab'', Insert [] ''abc'']) ''ab'')) ''ab'' \<and>
   visited []
     (snd (radix_trie_delete False [False]
          (run False Null [Insert [] ''a'', Insert [] ''ab'', Insert [] ''abc'']) ''ab''))
     (Some (replicate 8 nul)) 8 = [''a'', ''abc'']"
proof -
  let ?cs = "[Insert [] ''a'', Insert [] ''ab'', Insert [] ''abc'']"
  have h1: "\<forall>c \<in> set ?cs. nul \<notin> set (call_str c) \<and> length (call_str c) + 1 < 2 ^ 32" by simp
  have k: "keys (run False Null ?cs) = [''a'', ''ab'', ''abc'']" by code_simp
  have h2: "''ab'' \<in> set (keys (run False Null ?cs))" unfolding k by simp
  have h3: "buffer_ok [] (Some (replicate 8 nul)) 8" by (simp add: buffer_ok_def)
  have h4: "\<forall>m \<in> set (keys (run False Null ?cs)). length m < buffer_len (Some (replicate 8 nul)) 8"
    unfolding k by (simp add: buffer_len_def)
  have r: "fst (radix_trie_delete False [False] (run False Null ?cs) ''ab'') = - 1" by code_simp
  from delete_removes_one_member [OF h1 h2 h3 h4, of "[False]"] r show ?thesis
    unfolding k by (simp del: run.simps)
qed

text \<open>
  A string of \<open>2^32\<close> bytes \<open>a\<close> and the string \<open>b\<close> are inserted, and both calls return
  zero. \<^verbatim>\<open>radix_trie_make_suffix\<close> stores the length \<open>2^32 + 1\<close> in the field \<^verbatim>\<open>len\<close>, where it
  is 1. After the deletion of \<open>b\<close>, which returns zero, the lookup of the long string is
  false and the iteration yields nothing.
\<close>

theorem delete_long_member_counterexample:
  "results False Null [Insert [] (replicate 4294967296 (CHR ''a'')), Insert [] ''b''] = [0, 0] \<and>
   radix_trie_delete False []
     (run False Null [Insert [] (replicate 4294967296 (CHR ''a'')), Insert [] ''b'']) ''b'' =
     (0, Node Null Null ''a'') \<and>
   \<not> radix_trie_lookup False (Node Null Null ''a'') (replicate 4294967296 (CHR ''a'')) \<and>
   visited [] (Node Null Null ''a'') (Some (replicate 8 nul)) 8 = []"
proof -
  have r: "results False Null [Insert [] (replicate 4294967296 (CHR ''a'')), Insert [] ''b''] = [0, 0]"
    unfolding long_string_run(2) by code_simp
  have t: "run False Null [Insert [] (replicate 4294967296 (CHR ''a'')), Insert [] ''b''] =
      Node (Node Null Null [CHR ''b'', nul]) Null ''a''"
    unfolding long_string_run(1) by code_simp
  have d: "radix_trie_delete False [] (Node (Node Null Null [CHR ''b'', nul]) Null ''a'') ''b'' =
      (0, Node Null Null ''a'')" by code_simp
  have v: "visited [] (Node Null Null ''a'') (Some (replicate 8 nul)) 8 = []" by code_simp
  from r d v long_string_lookup [of False Null] show ?thesis
    unfolding t by (simp del: run.simps results.simps)
qed

text \<open>
  C6: after every sequence of inserts and deletes in which no fuse failed the tree is in
  canonical form: no node that is not terminal has exactly one child. As the code has
  it: after every sequence of calls on strings of fewer than \<open>2^32 - 1\<close> bytes, none of
  which reported a failure (each returned zero), the tree is in canonical form; every
  node that is not terminal then has at least two children.
\<close>

theorem canonical_without_failure:
  assumes "\<forall>c \<in> set cs. nul \<notin> set (call_str c) \<and> length (call_str c) + 1 < 2 ^ 32"
    and "\<forall>r \<in> set (results sg Null cs). r = 0"
  shows "canonical (run sg Null cs) \<and> compressed (run sg Null cs)"
  using run_compressed [of sg Null cs] assms compressed_canonical [of "run sg Null cs"] by simp

text \<open>The theorem at a sequence of three insertions and two deletions.\<close>

theorem canonical_without_failure_witness:
  "results False Null
     [Insert [] ''a'', Insert [] ''ab'', Insert [] ''abc'', Delete [] ''ab'', Delete [] ''zz''] =
     [0, 0, 0, 0, 0] \<and>
   canonical (run False Null
     [Insert [] ''a'', Insert [] ''ab'', Insert [] ''abc'', Delete [] ''ab'', Delete [] ''zz'']) \<and>
   run False Null
     [Insert [] ''a'', Insert [] ''ab'', Insert [] ''abc'', Delete [] ''ab'', Delete [] ''zz''] =
     Node Null (Node (Node Null Null [CHR ''b'', CHR ''c'', nul]) Null [nul]) ''a''"
proof -
  let ?cs = "[Insert [] ''a'', Insert [] ''ab'', Insert [] ''abc'', Delete [] ''ab'', Delete [] ''zz'']"
  have h1: "\<forall>c \<in> set ?cs. nul \<notin> set (call_str c) \<and> length (call_str c) + 1 < 2 ^ 32" by simp
  have r: "results False Null ?cs = [0, 0, 0, 0, 0]" by code_simp
  have h2: "\<forall>r \<in> set (results False Null ?cs). r = 0" unfolding r by simp
  have t: "run False Null ?cs =
     Node Null (Node (Node Null Null [CHR ''b'', CHR ''c'', nul]) Null [nul]) ''a''" by code_simp
  from canonical_without_failure [OF h1 h2] r t show ?thesis by (simp del: run.simps results.simps)
qed

text \<open>
  A sequence without any deletion, so without any fuse: the second insertion splits the
  node \<open>test\<close> after \<open>te\<close> and fails to allocate the suffix node. The node \<open>te\<close> is left
  with its single child \<open>st\<close>. And a sequence without any failure: a string of \<open>2^32\<close>
  bytes \<open>a\<close> is stored in a node of one byte that is not terminal, and the insertion of
  \<open>ab\<close> gives that node its single child.
\<close>

theorem canonical_counterexample:
  "results False Null [Insert [] ''test'', Insert [True, True, False] ''team''] = [0, 1] \<and>
   run False Null [Insert [] ''test'', Insert [True, True, False] ''team''] =
     Node Null (Node Null Null [CHR ''s'', CHR ''t'', nul]) ''te'' \<and>
   \<not> canonical (run False Null [Insert [] ''test'', Insert [True, True, False] ''team'']) \<and>
   results False Null [Insert [] (replicate 4294967296 (CHR ''a'')), Insert [] ''ab''] = [0, 0] \<and>
   run False Null [Insert [] (replicate 4294967296 (CHR ''a'')), Insert [] ''ab''] =
     Node Null (Node Null Null [CHR ''b'', nul]) ''a'' \<and>
   \<not> canonical (Node Null (Node Null Null [CHR ''b'', nul]) ''a'')"
proof -
  have a: "results False Null [Insert [] ''test'', Insert [True, True, False] ''team''] = [0, 1]"
    by code_simp
  have b: "run False Null [Insert [] ''test'', Insert [True, True, False] ''team''] =
     Node Null (Node Null Null [CHR ''s'', CHR ''t'', nul]) ''te''" by code_simp
  have c: "\<not> canonical (run False Null [Insert [] ''test'', Insert [True, True, False] ''team''])"
    by code_simp
  have d: "results False Null [Insert [] (replicate 4294967296 (CHR ''a'')), Insert [] ''ab''] = [0, 0]"
    unfolding long_string_run(2) by code_simp
  have e: "run False Null [Insert [] (replicate 4294967296 (CHR ''a'')), Insert [] ''ab''] =
     Node Null (Node Null Null [CHR ''b'', nul]) ''a''"
    unfolding long_string_run(1) by code_simp
  have f: "\<not> canonical (Node Null (Node Null Null [CHR ''b'', nul]) ''a'')" by code_simp
  from a b c d e f show ?thesis by (simp del: run.simps results.simps)
qed

text \<open>A callback that records the strings it is given and asks to stop on the \<open>k\<close>-th.\<close>

definition stop_on :: "nat \<Rightarrow> char list \<Rightarrow> char list list \<Rightarrow> int \<times> char list list" where
  "stop_on k s d = (if k \<le> Suc (length d) then 1 else 0, d @ [s])"

text \<open>
  C7: when the visitor asks to stop on its \<open>k\<close>-th visit, \<^verbatim>\<open>radix_trie_foreach\<close> has called
  it on exactly the first \<open>k\<close> members in sorted order, calls it no more and returns a
  value that is not zero; when it never asks to stop every member is visited and the
  function returns zero. As the code has it, stated as a refinement: with the buffer of
  the function or a buffer of the caller of at least one byte, for every visitor and
  every data, the value returned and the data the visitor leaves are those of \<open>visit_all\<close>
  on the members in the order of the iteration (each cut to the buffer, see C8). That
  order is ascending for the strings with their terminators, the bytes compared as
  values of \<^verbatim>\<open>char\<close>; it is the order by raw byte value where \<^verbatim>\<open>char\<close> is unsigned, and for
  members whose bytes are all below \<open>0x80\<close>.
\<close>

theorem foreach_early_termination:
  assumes "invar sg t" and "buffer_ok sbuf b n"
  shows "(fst (radix_trie_foreach sbuf t f d b n), data (snd (radix_trie_foreach sbuf t f d b n))) =
           visit_all f d (map (take (buffer_len b n - 1)) (keys t)) \<and>
         sorted_wrt (\<lambda>a c. lex_less (char_val sg) (a @ [nul]) (c @ [nul])) (keys t) \<and>
         ((\<not> sg \<or> (\<forall>s \<in> set (keys t). \<forall>c \<in> set s. (of_char c :: int) < 128)) \<longrightarrow>
            sorted_wrt (lex_less (char_val False)) (keys t))"
  using foreach_any [OF assms, of f d] keys_sorted [OF assms(1)] keys_sorted_raw [OF assms(1)]
  by auto

text \<open>The theorem at the set \<open>car\<close>, \<open>cat\<close>, \<open>dog\<close>: a visitor that stops on its second
  visit, and one that never stops.\<close>

theorem foreach_early_termination_witness:
  "(fst (radix_trie_foreach [] (insert_all False [''cat'', ''car'', ''dog'']) (stop_on 2) []
           (Some (replicate 8 nul)) 8),
    data (snd (radix_trie_foreach [] (insert_all False [''cat'', ''car'', ''dog'']) (stop_on 2) []
           (Some (replicate 8 nul)) 8))) = (1, [''car'', ''cat'']) \<and>
   (fst (radix_trie_foreach [] (insert_all False [''cat'', ''car'', ''dog'']) collect []
           (Some (replicate 8 nul)) 8),
    data (snd (radix_trie_foreach [] (insert_all False [''cat'', ''car'', ''dog'']) collect []
           (Some (replicate 8 nul)) 8))) = (0, [''car'', ''cat'', ''dog'']) \<and>
   sorted_wrt (lex_less (char_val False)) (keys (insert_all False [''cat'', ''car'', ''dog'']))"
proof -
  let ?t = "insert_all False [''cat'', ''car'', ''dog'']"
  have h1: "invar False ?t" by code_simp
  have h2: "buffer_ok [] (Some (replicate 8 nul)) 8" by (simp add: buffer_ok_def)
  have k: "map (take (buffer_len (Some (replicate 8 nul)) 8 - 1)) (keys ?t) = [''car'', ''cat'', ''dog'']"
    by code_simp
  have a: "visit_all (stop_on 2) [] [''car'', ''cat'', ''dog''] = (1, [''car'', ''cat''])"
    by code_simp
  have b: "visit_all collect [] [''car'', ''cat'', ''dog''] = (0, [''car'', ''cat'', ''dog''])"
    by code_simp
  from foreach_early_termination [OF h1 h2, of "stop_on 2" "[]"]
    foreach_early_termination [OF h1 h2, of collect "[]"]
  show ?thesis unfolding k a b by blast
qed

text \<open>
  Where \<^verbatim>\<open>char\<close> is signed, a visitor that stops on its first visit over the members \<open>a\<close>
  and \<open>0x80\<close> is given \<open>0x80\<close>, which is not the first member in the order by raw byte
  value. And with a buffer of the caller of no byte, a visitor that never asks to stop
  is not called on the member \<open>a\<close>, and the function returns zero.
\<close>

theorem foreach_early_termination_counterexample:
  "set (keys (insert_all True [''a'', [CHR 0x80]])) = {''a'', [CHR 0x80]} \<and>
   lex_less (char_val False) ''a'' [CHR 0x80] \<and>
   (fst (radix_trie_foreach [] (insert_all True [''a'', [CHR 0x80]]) (stop_on 1) []
           (Some (replicate 8 nul)) 8),
    data (snd (radix_trie_foreach [] (insert_all True [''a'', [CHR 0x80]]) (stop_on 1) []
           (Some (replicate 8 nul)) 8))) = (1, [[CHR 0x80]]) \<and>
   keys (insert_all False [''a'']) = [''a''] \<and>
   (fst (radix_trie_foreach [] (insert_all False [''a'']) collect [] (Some []) 0),
    data (snd (radix_trie_foreach [] (insert_all False [''a'']) collect [] (Some []) 0))) = (0, [])"
proof -
  have a: "keys (insert_all True [''a'', [CHR 0x80]]) = [[CHR 0x80], ''a'']" by code_simp
  have b: "lex_less (char_val False) ''a'' [CHR 0x80]" by code_simp
  have c: "(fst (radix_trie_foreach [] (insert_all True [''a'', [CHR 0x80]]) (stop_on 1) []
           (Some (replicate 8 nul)) 8),
    data (snd (radix_trie_foreach [] (insert_all True [''a'', [CHR 0x80]]) (stop_on 1) []
           (Some (replicate 8 nul)) 8))) = (1, [[CHR 0x80]])" by code_simp
  have d: "keys (insert_all False [''a'']) = [''a'']" by code_simp
  have e: "(fst (radix_trie_foreach [] (insert_all False [''a'']) collect [] (Some []) 0),
    data (snd (radix_trie_foreach [] (insert_all False [''a'']) collect [] (Some []) 0))) = (0, [])"
    by code_simp
  from a b c d e show ?thesis by auto
qed

text \<open>
  C8: with a buffer of \<open>n \<ge> 1\<close> bytes, a member longer than the buffer is still visited,
  cut short in place: the visitor is given its first \<open>n - 1\<close> bytes, the terminator being
  written to the last byte of the buffer, and no more than \<open>n\<close> bytes are written. The
  strings the visitor is given are the members in order, each cut to \<open>n - 1\<close> bytes; it is
  given them as the C string at the start of the buffer, so a string of \<open>n - 1\<close> bytes
  means the terminator is at the last byte. The buffer keeps its length, so every write
  was within it.
\<close>

theorem foreach_truncates:
  assumes "invar sg t" and "length u = n" and "1 \<le> n"
  shows "visited sbuf t (Some u) n = map (take (n - 1)) (keys t) \<and>
         fst (radix_trie_foreach sbuf t collect [] (Some u) n) = 0 \<and>
         length (buf (snd (radix_trie_foreach sbuf t f d (Some u) n))) = n"
proof -
  have ok: "buffer_ok sbuf (Some u) n" using assms(2,3) by (simp add: buffer_ok_def)
  from visited_eq [OF assms(1) ok] have "visited sbuf t (Some u) n = map (take (n - 1)) (keys t)"
    by (simp add: buffer_len_def)
  moreover from foreach_user [OF assms, of sbuf collect "[]"]
  have "fst (radix_trie_foreach sbuf t collect [] (Some u) n) = 0"
    by (auto simp: visit_all_collect)
  moreover from foreach_user [OF assms, of sbuf f d]
  have "length (buf (snd (radix_trie_foreach sbuf t f d (Some u) n))) = n" by auto
  ultimately show ?thesis by simp
qed

text \<open>The theorem at the set \<open>ab\<close>, \<open>abcd\<close>, \<open>abcdef\<close> and a buffer of three bytes.\<close>

theorem foreach_truncates_witness:
  "visited [] (insert_all False [''abcdef'', ''ab'', ''abcd'']) (Some ''xyz'') 3 = [''ab'', ''ab'', ''ab''] \<and>
   keys (insert_all False [''abcdef'', ''ab'', ''abcd'']) = [''ab'', ''abcd'', ''abcdef''] \<and>
   length (buf (snd (radix_trie_foreach [] (insert_all False [''abcdef'', ''ab'', ''abcd'']) collect []
      (Some ''xyz'') 3))) = 3"
proof -
  let ?t = "insert_all False [''abcdef'', ''ab'', ''abcd'']"
  have h1: "invar False ?t" by code_simp
  have h2: "length ''xyz'' = 3" by simp
  have h3: "(1::nat) \<le> 3" by simp
  have k: "keys ?t = [''ab'', ''abcd'', ''abcdef'']" by code_simp
  from foreach_truncates [OF h1 h2 h3, of "[]" collect "[]"] show ?thesis
    unfolding k by simp
qed

text \<open>
  C9: in every tree that a sequence of inserts and deletes builds from the empty tree,
  every terminal node has no children; a stored string that is a strict prefix of
  another is a parent node that is not terminal with a child of its own that holds the
  terminator only; so the node \<^verbatim>\<open>radix_trie_delete\<close> frees has no children, and freeing it
  detaches none. As the code has it, for calls on strings of fewer than \<open>2^32 - 1\<close> bytes,
  whatever the allocations did: every terminal node has no children. A member that is
  not the empty string and is a strict prefix of another member ends in a node that holds
  the terminator only, in the child list of a node that is not terminal: \<^verbatim>\<open>*parent\<close> when
  the loop of \<^verbatim>\<open>radix_trie_delete\<close> matches it. The empty string, when it is such a member,
  ends in a node that holds the terminator only in the list of the root, where \<^verbatim>\<open>*parent\<close>
  is NULL. And the node \<^verbatim>\<open>radix_trie_delete\<close> frees is terminal and has no children.
\<close>

theorem terminal_nodes_have_no_children:
  assumes "\<forall>c \<in> set cs. nul \<notin> set (call_str c) \<and> length (call_str c) + 1 < 2 ^ 32"
  shows "terminal_leaves (run sg Null cs) \<and>
         (s \<in> set (keys (run sg Null cs)) \<and> s @ r \<in> set (keys (run sg Null cs)) \<and> r \<noteq> [] \<and>
          s \<noteq> [] \<longrightarrow>
            (\<exists>p sb. radix_trie_delete_walk sg Null (run sg Null cs) s = Some (p, Node sb Null [nul]) \<and>
               p \<noteq> Null \<and> \<not> terminal (substr p) \<and>
               Node sb Null [nul] \<in> set (sib_nodes (child p)))) \<and>
         ([] \<in> set (keys (run sg Null cs)) \<and> r \<in> set (keys (run sg Null cs)) \<and> r \<noteq> [] \<longrightarrow>
            (\<exists>sb. radix_trie_delete_walk sg Null (run sg Null cs) [] =
                     Some (Null, Node sb Null [nul]) \<and>
               Node sb Null [nul] \<in> set (sib_nodes (run sg Null cs)))) \<and>
         (nul \<notin> set q \<and> radix_trie_delete_walk sg Null (run sg Null cs) q = Some (p', node) \<longrightarrow>
            child node = Null \<and> terminal (substr node) \<and>
            fst (radix_trie_delete_loop sg al (run sg Null cs) q) \<noteq> Unmatched)"
proof -
  let ?t = "run sg Null cs"
  have inv: "invar sg ?t" using run_invar [of sg Null cs] assms by simp
  have a: "terminal_leaves ?t" by (rule invar_terminal_leaves [OF inv])
  have b: "\<exists>p sb. radix_trie_delete_walk sg Null ?t s = Some (p, Node sb Null [nul]) \<and>
               p \<noteq> Null \<and> \<not> terminal (substr p) \<and>
               Node sb Null [nul] \<in> set (sib_nodes (child p))"
    if "s \<in> set (keys ?t)" "s @ r \<in> set (keys ?t)" "r \<noteq> []" "s \<noteq> []"
  proof -
    from walk_prefix [OF inv keys_nonul [OF inv that(1)], of r] that(1-3)
      keys_iff [OF inv, of s] keys_iff [OF inv, of "s @ r"]
    have "\<forall>parent. \<exists>q sb. radix_trie_delete_walk sg parent ?t s = Some (q, Node sb Null [nul]) \<and>
            (s = [] \<longrightarrow> q = parent \<and> Node sb Null [nul] \<in> set (sib_nodes ?t)) \<and>
            (s \<noteq> [] \<longrightarrow> q \<noteq> Null \<and> \<not> terminal (substr q) \<and>
               Node sb Null [nul] \<in> set (sib_nodes (child q)))"
      by simp
    from spec [OF this, of Null] that(4) show ?thesis by blast
  qed
  have c: "\<exists>sb. radix_trie_delete_walk sg Null ?t [] = Some (Null, Node sb Null [nul]) \<and>
               Node sb Null [nul] \<in> set (sib_nodes ?t)"
    if "[] \<in> set (keys ?t)" "r \<in> set (keys ?t)" "r \<noteq> []"
  proof -
    from walk_prefix [OF inv, of "[]" r] that keys_iff [OF inv, of "[]"] keys_iff [OF inv, of r]
    have "\<forall>parent. \<exists>q sb. radix_trie_delete_walk sg parent ?t [] = Some (q, Node sb Null [nul]) \<and>
            q = parent \<and> Node sb Null [nul] \<in> set (sib_nodes ?t)"
      by simp
    from spec [OF this, of Null] show ?thesis by blast
  qed
  have d: "child node = Null \<and> terminal (substr node) \<and>
      fst (radix_trie_delete_loop sg al ?t q) \<noteq> Unmatched"
    if "nul \<notin> set q" "radix_trie_delete_walk sg Null ?t q = Some (p', node)"
    using walk_spec(2) [OF inv that(1), of Null al] walk_spec(3) [OF inv that(1,2)] that(2)
    by auto
  from a b c d show ?thesis by blast
qed

text \<open>The theorem at the set \<open>a\<close>, \<open>ab\<close>, built with a failed insertion and a deletion on
  the way.\<close>

theorem terminal_nodes_have_no_children_witness:
  "run False Null [Insert [] ''a'', Insert [False] ''b'', Insert [] ''ab'', Delete [] ''b''] =
     Node Null (Node (Node Null Null [CHR ''b'', nul]) Null [nul]) ''a'' \<and>
   terminal_leaves (run False Null [Insert [] ''a'', Insert [False] ''b'', Insert [] ''ab'', Delete [] ''b'']) \<and>
   radix_trie_delete_walk False Null
     (run False Null [Insert [] ''a'', Insert [False] ''b'', Insert [] ''ab'', Delete [] ''b'']) ''a'' =
     Some (Node Null (Node (Node Null Null [CHR ''b'', nul]) Null [nul]) ''a'',
           Node (Node Null Null [CHR ''b'', nul]) Null [nul])"
proof -
  let ?cs = "[Insert [] ''a'', Insert [False] ''b'', Insert [] ''ab'', Delete [] ''b'']"
  have h: "\<forall>c \<in> set ?cs. nul \<notin> set (call_str c) \<and> length (call_str c) + 1 < 2 ^ 32" by simp
  have t: "run False Null ?cs = Node Null (Node (Node Null Null [CHR ''b'', nul]) Null [nul]) ''a''"
    by code_simp
  have f: "radix_trie_delete_walk False Null (run False Null ?cs) ''a'' =
     Some (Node Null (Node (Node Null Null [CHR ''b'', nul]) Null [nul]) ''a'',
           Node (Node Null Null [CHR ''b'', nul]) Null [nul])" by code_simp
  from terminal_nodes_have_no_children [OF h, of False] t f show ?thesis
    by (simp del: run.simps)
qed

text \<open>
  The empty string and \<open>a\<close> are members, and the empty string is a strict prefix of \<open>a\<close>.
  Its node, which holds the terminator only, is the first node of the list of the root
  and has the node of \<open>a\<close> for its sibling: there is no parent, \<^verbatim>\<open>*parent\<close> is NULL when
  \<^verbatim>\<open>radix_trie_delete\<close> matches it. And a string of \<open>2^32\<close> bytes \<open>a\<close> followed by the same
  string with \<open>b\<close> appended, both inserted with the result zero, leave two nodes that hold
  the byte \<open>a\<close>: the first string is a strict prefix of the second and no node holds the
  terminator.
\<close>

theorem terminal_nodes_counterexample:
  "keys (insert_all False [[], ''a'']) = [[], ''a''] \<and>
   insert_all False [[], ''a''] = Node (Node Null Null [CHR ''a'', nul]) Null [nul] \<and>
   radix_trie_delete_walk False Null (insert_all False [[], ''a'']) [] =
     Some (Null, Node (Node Null Null [CHR ''a'', nul]) Null [nul]) \<and>
   results False Null [Insert [] (replicate 4294967296 (CHR ''a'')),
                       Insert [] (replicate 4294967296 (CHR ''a'') @ ''b'')] = [0, 0] \<and>
   run False Null [Insert [] (replicate 4294967296 (CHR ''a'')),
                   Insert [] (replicate 4294967296 (CHR ''a'') @ ''b'')] =
     Node Null (Node Null Null ''a'') ''a''"
proof -
  have a: "keys (insert_all False [[], ''a'']) = [[], ''a'']" by code_simp
  have b: "insert_all False [[], ''a''] = Node (Node Null Null [CHR ''a'', nul]) Null [nul]"
    by code_simp
  have c: "radix_trie_delete_walk False Null (insert_all False [[], ''a'']) [] =
     Some (Null, Node (Node Null Null [CHR ''a'', nul]) Null [nul])" by code_simp
  have d: "results False Null [Insert [] (replicate 4294967296 (CHR ''a'')),
                       Insert [] (replicate 4294967296 (CHR ''a'') @ ''b'')] = [0, 0]"
    unfolding long_string_run(2) by (simp add: long_string_tail)
  have e: "run False Null [Insert [] (replicate 4294967296 (CHR ''a'')),
                   Insert [] (replicate 4294967296 (CHR ''a'') @ ''b'')] =
     Node Null (Node Null Null ''a'') ''a''"
    unfolding long_string_run(1) by (simp add: long_string_tail)
  from a b c d e show ?thesis by (simp del: run.simps results.simps)
qed

text \<open>
  C10: for every tree, \<^verbatim>\<open>radix_trie_foreach\<close> with a buffer of the caller and a length of
  zero calls the visitor no time and returns zero. The data are those passed in,
  whatever the visitor is, and a visitor that records its visits has recorded none. The
  tree is an argument the function does not return: it cannot change.
\<close>

theorem foreach_zero_length_buffer:
  "radix_trie_foreach sbuf t f d (Some u) 0 = (0, \<lparr>fn = f, data = d, buf = u, len = 0\<rparr>) \<and>
   visited sbuf t (Some u) 0 = []"
  by (simp add: foreach_zero visited_def)

end
